theory Spec2Isabelle
  imports Complex_Main "HOL-Library.Word" "HOL-Library.Multiset" "HOL-Library.Sublist"
begin

section \<open>SCFG active chart: symbol bindings (moses2/SCFG/ActiveChart.cpp)\<close>

text \<open>
  A \<^verbatim>\<open>SymbolBindElement\<close> holds three pointers: to a \<^verbatim>\<open>Range\<close>, to a \<^verbatim>\<open>SCFG::Word\<close> and to
  a \<^verbatim>\<open>HypothesisColl\<close>. Addresses are natural numbers. The word is only ever read through
  its pointer (\<^verbatim>\<open>word->isNonTerminal\<close>) and never written in this file, so the element
  carries the pointee. The \<^verbatim>\<open>hypos\<close> pointer may be \<^verbatim>\<open>NULL\<close>: it is an option, \<open>None\<close>
  being \<^verbatim>\<open>NULL\<close>. \<^verbatim>\<open>assert\<close> aborts the program: a failed assertion is the error value.
\<close>

datatype error = AssertionFailed | MalformedHypergraph | LoopBoundExceeded

record Word =
  isNonTerminal :: bool

record SymbolBindElement =
  range' :: nat
  word :: Word
  hypos :: "nat option"

text \<open>
  \<^verbatim>\<open>assert( (word->isNonTerminal && hypos) || (!word->isNonTerminal && hypos == NULL));\<close>
\<close>

definition SymbolBindElement_ctor :: "nat \<Rightarrow> Word \<Rightarrow> nat option \<Rightarrow> error + SymbolBindElement" where
  "SymbolBindElement_ctor r w h =
     (if (isNonTerminal w \<and> h \<noteq> None) \<or> (\<not> isNonTerminal w \<and> h = None)
      then Inr \<lparr>range' = r, word = w, hypos = h\<rparr>
      else Inl AssertionFailed)"

text \<open>
  \<^verbatim>\<open>SymbolBind\<close>: the vector \<^verbatim>\<open>coll\<close> and the counter \<^verbatim>\<open>numNT\<close>, a \<^verbatim>\<open>size_t\<close>
  (64 bits, \<^verbatim>\<open>++numNT\<close> wraps).
\<close>

record SymbolBind =
  coll :: "SymbolBindElement list"
  numNT :: "64 word"

definition Add :: "SymbolBind \<Rightarrow> nat \<Rightarrow> Word \<Rightarrow> nat option \<Rightarrow> error + SymbolBind" where
  "Add sb r w h =
     (case SymbolBindElement_ctor r w h of
        Inl e \<Rightarrow> Inl e
      | Inr ele \<Rightarrow>
          (let sb1 = sb\<lparr>coll := coll sb @ [ele]\<rparr>
           in Inr (if isNonTerminal w then sb1\<lparr>numNT := numNT sb1 + 1\<rparr> else sb1)))"

text \<open>A sequence of \<^verbatim>\<open>Add\<close> calls; the first failed assertion ends the run.\<close>

fun Add_all :: "SymbolBind \<Rightarrow> (nat \<times> Word \<times> nat option) list \<Rightarrow> error + SymbolBind" where
  "Add_all sb [] = Inr sb"
| "Add_all sb ((r, w, h) # rest) =
     (case Add sb r w h of Inl e \<Rightarrow> Inl e | Inr sb' \<Rightarrow> Add_all sb' rest)"

text \<open>
  \<^verbatim>\<open>GetNTElements\<close> returns pointers into \<^verbatim>\<open>coll\<close> (\<^verbatim>\<open>&coll[i]\<close>): a pointer to the
  \<open>i\<close>-th slot is the index \<open>i\<close>. The \<^verbatim>\<open>for\<close> loop over \<open>i\<close> is the recursion below.
\<close>

function GetNTElements_loop :: "SymbolBind \<Rightarrow> nat \<Rightarrow> nat list \<Rightarrow> nat list" where
  "GetNTElements_loop sb i ret =
     (if i < length (coll sb)
      then (let ele = coll sb ! i
            in GetNTElements_loop sb (i + 1)
                 (if isNonTerminal (word ele) then ret @ [i] else ret))
      else ret)"
  by pat_completeness auto
termination
  by (relation "measure (\<lambda>(sb, i, ret). length (coll sb) - i)") auto

declare GetNTElements_loop.simps [simp del]

definition GetNTElements :: "SymbolBind \<Rightarrow> nat list" where
  "GetNTElements sb = GetNTElements_loop sb 0 []"

text \<open>The invariant of an element, and the number of non-terminal elements.\<close>

definition elem_ok :: "SymbolBindElement \<Rightarrow> bool" where
  "elem_ok e = ((hypos e \<noteq> None) = isNonTerminal (word e))"

definition isNT :: "SymbolBindElement \<Rightarrow> bool" where
  "isNT e = isNonTerminal (word e)"

definition all_ok :: "SymbolBindElement list \<Rightarrow> bool" where
  "all_ok es = list_all elem_ok es"

section \<open>Lazy k-best extraction: the data of moses/ChartKBestExtractor.h\<close>

text \<open>
  A \<^verbatim>\<open>boost::shared_ptr<Vertex>\<close> is compared and hashed by the address it holds: a vertex
  pointer is a natural number. The \<^verbatim>\<open>ScoreComponentCollection\<close> is a value of a type \<open>'b\<close>.
  Back pointers are \<^verbatim>\<open>size_t\<close> ranks into a k-best list and stay far below \<open>2^64\<close>: natural
  numbers.

  \<^verbatim>\<open>float score\<close>: a value of the type is a NaN, one of the two infinities or a finite
  number, which is taken as the real number it denotes (the finite values of the type are
  among them; the two zeros are one). \<open>float_less\<close> is the operator \<^verbatim>\<open><\<close> of IEEE 754 and
  \<open>float_le\<close> the operator \<^verbatim>\<open><=\<close>: both are false as soon as one side is a NaN.
\<close>

datatype float = NaN | MinusInfinity | Finite real | PlusInfinity

fun float_less :: "float \<Rightarrow> float \<Rightarrow> bool" where
  "float_less (Finite x) (Finite y) = (x < y)"
| "float_less MinusInfinity (Finite y) = True"
| "float_less MinusInfinity PlusInfinity = True"
| "float_less (Finite x) PlusInfinity = True"
| "float_less _ _ = False"

fun float_le :: "float \<Rightarrow> float \<Rightarrow> bool" where
  "float_le (Finite x) (Finite y) = (x \<le> y)"
| "float_le MinusInfinity (Finite y) = True"
| "float_le MinusInfinity PlusInfinity = True"
| "float_le (Finite x) PlusInfinity = True"
| "float_le MinusInfinity MinusInfinity = True"
| "float_le PlusInfinity PlusInfinity = True"
| "float_le _ _ = False"

record UnweightedHyperarc =
  head :: nat
  tail :: "nat list"

record 'b Derivation =
  edge :: UnweightedHyperarc
  backPointers :: "nat list"
  scoreBreakdown :: 'b
  score :: float

text \<open>\<^verbatim>\<open>return d1->score < d2->score;\<close>\<close>

definition DerivationOrderer :: "'b Derivation \<Rightarrow> 'b Derivation \<Rightarrow> bool" where
  "DerivationOrderer d1 d2 = float_less (score d1) (score d2)"

text \<open>
  \<^verbatim>\<open>std::vector::operator==\<close>: equal sizes and equal elements, position by position.
\<close>

fun vector_eq :: "'a list \<Rightarrow> 'a list \<Rightarrow> bool" where
  "vector_eq [] [] = True"
| "vector_eq (x # xs) (y # ys) = (x = y \<and> vector_eq xs ys)"
| "vector_eq _ _ = False"

definition DerivationEqualityPred :: "'b Derivation \<Rightarrow> 'b Derivation \<Rightarrow> bool" where
  "DerivationEqualityPred d1 d2 =
     (head (edge d1) = head (edge d2) \<and>
      vector_eq (tail (edge d1)) (tail (edge d2)) \<and>
      vector_eq (backPointers d1) (backPointers d2))"

text \<open>
  \<^verbatim>\<open>boost::hash_combine\<close> is Boost's, not this repository's: the hasher takes the three
  instances it calls (for a vertex pointer, for a vector of vertex pointers and for a
  vector of \<^verbatim>\<open>size_t\<close>) as parameters. \<^verbatim>\<open>std::size_t seed\<close> is a 64-bit word.
\<close>

definition DerivationHasher ::
  "(64 word \<Rightarrow> nat \<Rightarrow> 64 word) \<Rightarrow> (64 word \<Rightarrow> nat list \<Rightarrow> 64 word) \<Rightarrow>
   (64 word \<Rightarrow> nat list \<Rightarrow> 64 word) \<Rightarrow> 'b Derivation \<Rightarrow> 64 word" where
  "DerivationHasher hc_ptr hc_ptrs hc_sizes d =
     (let seed = 0;
          seed = hc_ptr seed (head (edge d));
          seed = hc_ptrs seed (tail (edge d));
          seed = hc_sizes seed (backPointers d)
      in seed)"

text \<open>
  The instances of Boost 1.55 (\<^verbatim>\<open>boost/functional/hash/hash.hpp\<close>), for concrete runs:
  \<^verbatim>\<open>seed ^= hash_value(v) + 0x9e3779b9 + (seed << 6) + (seed >> 2)\<close>, a pointer hashed as
  \<^verbatim>\<open>x + (x >> 3)\<close>, a \<^verbatim>\<open>size_t\<close> as itself and a vector by \<^verbatim>\<open>hash_range\<close>.
\<close>

definition boost_combine :: "64 word \<Rightarrow> 64 word \<Rightarrow> 64 word" where
  "boost_combine seed h = xor seed (h + 0x9e3779b9 + push_bit 6 seed + drop_bit 2 seed)"

definition boost_hash_ptr :: "nat \<Rightarrow> 64 word" where
  "boost_hash_ptr x = of_nat x + drop_bit 3 (of_nat x)"

definition boost_hc_ptr :: "64 word \<Rightarrow> nat \<Rightarrow> 64 word" where
  "boost_hc_ptr seed p = boost_combine seed (boost_hash_ptr p)"

definition boost_hc_ptrs :: "64 word \<Rightarrow> nat list \<Rightarrow> 64 word" where
  "boost_hc_ptrs seed ps = boost_combine seed (foldl boost_hc_ptr 0 ps)"

definition boost_hc_sizes :: "64 word \<Rightarrow> nat list \<Rightarrow> 64 word" where
  "boost_hc_sizes seed ns = boost_combine seed (foldl (\<lambda>s n. boost_combine s (of_nat n)) 0 ns)"

section \<open>The candidate queue: \<^verbatim>\<open>std::priority_queue\<close> over a \<^verbatim>\<open>std::vector\<close>\<close>

text \<open>
  \<^verbatim>\<open>Vertex::DerivationQueue\<close> is a \<^verbatim>\<open>std::priority_queue\<close> with the container
  \<^verbatim>\<open>std::vector\<close> and the comparison \<^verbatim>\<open>DerivationOrderer\<close>. The standard defines
  \<^verbatim>\<open>push(x)\<close> as \<^verbatim>\<open>c.push_back(x); push_heap(c.begin(), c.end(), comp)\<close>, \<^verbatim>\<open>pop()\<close> as
  \<^verbatim>\<open>pop_heap(c.begin(), c.end(), comp); c.pop_back()\<close> and \<^verbatim>\<open>top()\<close> as \<^verbatim>\<open>c.front()\<close>.
  The heap functions are those of libstdc++ (\<^verbatim>\<open>bits/stl_heap.h\<close>), the library of the GCC
  builds of Moses. Indices are \<^verbatim>\<open>ptrdiff_t\<close> there; \<^verbatim>\<open>(holeIndex - 1) / 2\<close> at hole 0 is
  \<^verbatim>\<open>-1 / 2 = 0\<close> in C++ and \<open>(0 - 1) div 2 = 0\<close> on natural numbers.

  \<^verbatim>\<open>__push_heap(first, holeIndex, topIndex, value, comp)\<close>:
  \<^verbatim>\<open>parent = (holeIndex - 1) / 2;
  while (holeIndex > topIndex && comp(first + parent, value)) {
    *(first + holeIndex) = *(first + parent); holeIndex = parent;
    parent = (holeIndex - 1) / 2; }
  *(first + holeIndex) = value;\<close>
\<close>

function push_heap_loop :: "('a \<Rightarrow> 'a \<Rightarrow> bool) \<Rightarrow> 'a list \<Rightarrow> nat \<Rightarrow> nat \<Rightarrow> 'a \<Rightarrow> 'a list" where
  "push_heap_loop cmp first holeIndex topIndex val =
     (let parent = (holeIndex - 1) div 2
      in if holeIndex > topIndex \<and> cmp (first ! parent) val
         then push_heap_loop cmp (first[holeIndex := first ! parent]) parent topIndex val
         else first[holeIndex := val])"
  by pat_completeness auto
termination
  by (relation "measure (\<lambda>(cmp, first, holeIndex, topIndex, val). holeIndex)") auto

declare push_heap_loop.simps [simp del]

text \<open>
  \<^verbatim>\<open>__adjust_heap(first, holeIndex, len, value, cmp)\<close>:
  \<^verbatim>\<open>topIndex = holeIndex; secondChild = holeIndex;
  while (secondChild < (len - 1) / 2) {
    secondChild = 2 * (secondChild + 1);
    if (cmp(first + secondChild, first + (secondChild - 1))) secondChild--;
    *(first + holeIndex) = *(first + secondChild); holeIndex = secondChild; }
  if ((len & 1) == 0 && secondChild == (len - 2) / 2) {
    secondChild = 2 * (secondChild + 1);
    *(first + holeIndex) = *(first + (secondChild - 1)); holeIndex = secondChild - 1; }
  __push_heap(first, holeIndex, topIndex, value, cmp);\<close>
  At the head of the \<^verbatim>\<open>while\<close> loop \<^verbatim>\<open>secondChild\<close> equals \<^verbatim>\<open>holeIndex\<close>: the loop below
  carries the one index.
\<close>

function adjust_heap_loop :: "('a \<Rightarrow> 'a \<Rightarrow> bool) \<Rightarrow> 'a list \<Rightarrow> nat \<Rightarrow> nat \<Rightarrow> 'a list \<times> nat" where
  "adjust_heap_loop cmp first holeIndex len =
     (if holeIndex < (len - 1) div 2
      then (let secondChild = 2 * (holeIndex + 1);
                secondChild = (if cmp (first ! secondChild) (first ! (secondChild - 1))
                               then secondChild - 1 else secondChild)
            in adjust_heap_loop cmp (first[holeIndex := first ! secondChild]) secondChild len)
      else (first, holeIndex))"
  by pat_completeness auto
termination
  by (relation "measure (\<lambda>(cmp, first, holeIndex, len). len - holeIndex)") (auto simp: Let_def)

declare adjust_heap_loop.simps [simp del]

definition adjust_heap :: "('a \<Rightarrow> 'a \<Rightarrow> bool) \<Rightarrow> 'a list \<Rightarrow> nat \<Rightarrow> nat \<Rightarrow> 'a \<Rightarrow> 'a list" where
  "adjust_heap cmp first holeIndex len val =
     (let topIndex = holeIndex;
          (first, holeIndex) = adjust_heap_loop cmp first holeIndex len;
          (first, holeIndex) =
            (if len mod 2 = 0 \<and> holeIndex = (len - 2) div 2
             then (let secondChild = 2 * (holeIndex + 1)
                   in (first[holeIndex := first ! (secondChild - 1)], secondChild - 1))
             else (first, holeIndex))
      in push_heap_loop cmp first holeIndex topIndex val)"

definition pq_push :: "('a \<Rightarrow> 'a \<Rightarrow> bool) \<Rightarrow> 'a list \<Rightarrow> 'a \<Rightarrow> 'a list" where
  "pq_push cmp c x =
     (let c = c @ [x]; val = c ! (length c - 1)
      in push_heap_loop cmp c (length c - 1) 0 val)"

definition pq_top :: "'a list \<Rightarrow> 'a" where
  "pq_top c = c ! 0"

definition pq_pop :: "('a \<Rightarrow> 'a \<Rightarrow> bool) \<Rightarrow> 'a list \<Rightarrow> 'a list" where
  "pq_pop cmp c =
     (let c = (if length c > 1
               then (let last = length c - 1; val = c ! last; c = c[last := c ! 0]
                     in adjust_heap cmp c 0 last val)
               else c)
      in butlast c)"

text \<open>
  The heap order of the array: no element is above its parent \<open>(i - 1) div 2\<close> in the
  comparison's key. \<open>heap_upto f n\<close> speaks of the first \<open>n\<close> slots; \<open>sift_inv\<close> is the
  invariant of \<^verbatim>\<open>__push_heap\<close>, where the slot \<open>hole\<close> alone may be above its parent.
\<close>

definition heap_upto :: "('a \<Rightarrow> real) \<Rightarrow> nat \<Rightarrow> 'a list \<Rightarrow> bool" where
  "heap_upto f n xs = (\<forall>i. 0 < i \<and> i < n \<longrightarrow> f (xs ! i) \<le> f (xs ! ((i - 1) div 2)))"

definition sift_inv :: "('a \<Rightarrow> real) \<Rightarrow> nat \<Rightarrow> nat \<Rightarrow> 'a list \<Rightarrow> bool" where
  "sift_inv f n hole xs =
     ((\<forall>i. 0 < i \<and> i < n \<and> i \<noteq> hole \<longrightarrow> f (xs ! i) \<le> f (xs ! ((i - 1) div 2))) \<and>
      (\<forall>i. 0 < i \<and> i < n \<and> (i - 1) div 2 = hole \<and> 0 < hole \<longrightarrow>
           f (xs ! i) \<le> f (xs ! ((hole - 1) div 2))))"

definition is_heap :: "('a \<Rightarrow> real) \<Rightarrow> 'a list \<Rightarrow> bool" where
  "is_heap f xs = heap_upto f (length xs) xs"

text \<open>\<^verbatim>\<open>top(); pop();\<close> repeated \<open>n\<close> times: the candidates in the order they leave.\<close>

fun pq_pops :: "('a \<Rightarrow> 'a \<Rightarrow> bool) \<Rightarrow> nat \<Rightarrow> 'a list \<Rightarrow> 'a list" where
  "pq_pops cmp 0 c = []"
| "pq_pops cmp (Suc n) c = pq_top c # pq_pops cmp n (pq_pop cmp c)"

text \<open>
  The queues a vertex can hold: built from the empty queue by \<^verbatim>\<open>push\<close> and by \<^verbatim>\<open>pop\<close> on a
  non-empty queue. \<open>P\<close> says which derivations are pushed.
\<close>

inductive DerivationQueue :: "('b Derivation \<Rightarrow> bool) \<Rightarrow> 'b Derivation list \<Rightarrow> bool"
  for P :: "'b Derivation \<Rightarrow> bool" where
  empty: "DerivationQueue P []"
| push: "DerivationQueue P c \<Longrightarrow> P d \<Longrightarrow> DerivationQueue P (pq_push DerivationOrderer c d)"
| pop: "DerivationQueue P c \<Longrightarrow> c \<noteq> [] \<Longrightarrow> DerivationQueue P (pq_pop DerivationOrderer c)"

text \<open>
  An order-preserving map of the values other than NaN into the real numbers: it carries the
  comparison of such scores to the keys of \<open>is_heap\<close>.
\<close>

definition float_key :: "float \<Rightarrow> real" where
  "float_key x = (case x of NaN \<Rightarrow> 0 | MinusInfinity \<Rightarrow> - 2 | Finite r \<Rightarrow> arctan r | PlusInfinity \<Rightarrow> 2)"

section \<open>Lazy k-best extraction: vertices and the algorithm\<close>

text \<open>
  \<^verbatim>\<open>Vertex\<close> as the header declares it. A hypothesis is identified by reference: it is a
  natural number, and since the vertex map holds one vertex per hypothesis, the pointer to the
  vertex of hypothesis \<open>h\<close> is \<open>h\<close> as well. \<^verbatim>\<open>seen\<close> is a \<^verbatim>\<open>boost::unordered_set\<close> with
  \<^verbatim>\<open>DerivationHasher\<close> and \<^verbatim>\<open>DerivationEqualityPred\<close>: its nodes are kept with their hash
  values, and a lookup finds a node whose hash value is that of the key and which the
  predicate accepts. The hash function \<open>hf\<close> is a parameter of everything that touches the
  set.
\<close>

record 'b Vertex =
  hypothesis :: nat
  kBestList :: "'b Derivation list"
  candidates :: "'b Derivation list"
  seen :: "(64 word \<times> 'b Derivation) list"
  visited :: bool

definition Vertex_ctor :: "nat \<Rightarrow> 'b Vertex" where
  "Vertex_ctor h = \<lparr>hypothesis = h, kBestList = [], candidates = [], seen = [], visited = False\<rparr>"

definition DerivationSet_find ::
  "('b Derivation \<Rightarrow> 64 word) \<Rightarrow> (64 word \<times> 'b Derivation) list \<Rightarrow> 'b Derivation \<Rightarrow> bool" where
  "DerivationSet_find hf s d = list_ex (\<lambda>(h, e). h = hf d \<and> DerivationEqualityPred e d) s"

definition DerivationSet_insert ::
  "('b Derivation \<Rightarrow> 64 word) \<Rightarrow> (64 word \<times> 'b Derivation) list \<Rightarrow> 'b Derivation \<Rightarrow>
   (64 word \<times> 'b Derivation) list \<times> bool" where
  "DerivationSet_insert hf s d =
     (if DerivationSet_find hf s d then (s, False) else (s @ [(hf d, d)], True))"

type_synonym 'b VertexMap = "nat \<Rightarrow> 'b Vertex option"

text \<open>
  Modelled from the spec: the hypergraph of the search (\<^verbatim>\<open>ChartHypothesis\<close>, not under src/).
  A hypothesis is produced by one rule application, its own hyperedge: the ordered list of
  its antecedent hypotheses with a local score and a local score breakdown. The header makes
  a hyperarc from a hypothesis (\<^verbatim>\<open>UnweightedHyperarc CreateEdge(const ChartHypothesis &)\<close>):
  its head is the vertex of that hypothesis ("the rule that produced the head", section 3)
  and its tail the vertices of the antecedents. The incoming hyperedges that a hypothesis
  exposes (section 3) are its own and those of the hypotheses that the search has merged
  into it, \<open>recombined\<close>. So every incoming hyperedge of a hypothesis has a hyperarc of its own,
  also next to one with the same antecedents (section 8: two childless hyperedges of one root
  are two derivations), and the local score of a hyperarc is that of its head. Hypotheses
  are numbered so that antecedents come before the hypothesis they lead to (the graph is
  acyclic, over strictly smaller spans).
\<close>

record 'b ChartHypothesis =
  antecedents :: "nat list"
  localScore :: float
  localBreakdown :: 'b
  recombined :: "nat list"

type_synonym 'b hypergraph = "nat \<Rightarrow> 'b ChartHypothesis"

definition incoming :: "'b hypergraph \<Rightarrow> nat \<Rightarrow> nat list" where
  "incoming g h = h # recombined (g h)"

definition CreateEdge :: "'b hypergraph \<Rightarrow> nat \<Rightarrow> UnweightedHyperarc" where
  "CreateEdge g h = \<lparr>head = h, tail = antecedents (g h)\<rparr>"

text \<open>
  Modelled from the spec: the sum of two scores (section 7: "no overflow/NaN handling is
  defined beyond propagating IEEE semantics"). A NaN gives a NaN, an infinity stays unless
  the other side is the opposite infinity, which gives a NaN. The sum of two finite scores
  is the sum of the numbers: rounding and overflow are not modelled.
\<close>

fun float_add :: "float \<Rightarrow> float \<Rightarrow> float" where
  "float_add (Finite x) (Finite y) = Finite (x + y)"
| "float_add NaN _ = NaN"
| "float_add _ NaN = NaN"
| "float_add PlusInfinity MinusInfinity = NaN"
| "float_add MinusInfinity PlusInfinity = NaN"
| "float_add PlusInfinity _ = PlusInfinity"
| "float_add _ PlusInfinity = PlusInfinity"
| "float_add MinusInfinity _ = MinusInfinity"
| "float_add _ MinusInfinity = MinusInfinity"

text \<open>
  Modelled from the spec: \<^verbatim>\<open>FindOrCreateVertex\<close> (section 4.2; its body is in
  ChartKBestExtractor.cpp, not under src/). It returns the vertex registered for the
  hypothesis, or registers a new unseeded one.
\<close>

definition FindOrCreateVertex :: "'b VertexMap \<Rightarrow> nat \<Rightarrow> 'b Vertex \<times> 'b VertexMap" where
  "FindOrCreateVertex m h =
     (case m h of Some x \<Rightarrow> (x, m) | None \<Rightarrow> (Vertex_ctor h, m(h \<mapsto> Vertex_ctor h)))"

text \<open>The vertex a pointer refers to, and writing a vertex back.\<close>

definition vx :: "'b VertexMap \<Rightarrow> nat \<Rightarrow> 'b Vertex" where
  "vx m v = fst (FindOrCreateVertex m v)"

text \<open>
  Modelled from the spec: the two constructors of \<^verbatim>\<open>Derivation\<close> (section 4.1; declared in the
  header, their bodies are not under src/). The score is the hyperarc's own local contribution
  plus the scores of the child derivations at the back-pointer ranks, added one after the
  other; the breakdown likewise. The local contribution of a hyperarc is that of the
  hypothesis at its head. A derivation whose child ranks do not all exist is not constructed.
\<close>

definition hyperarc_local :: "'b hypergraph \<Rightarrow> UnweightedHyperarc \<Rightarrow> float \<times> 'b" where
  "hyperarc_local g e = (localScore (g (head e)), localBreakdown (g (head e)))"

fun child_derivations :: "'b VertexMap \<Rightarrow> nat list \<Rightarrow> nat list \<Rightarrow> 'b Derivation list option" where
  "child_derivations m [] [] = Some []"
| "child_derivations m (u # us) (r # rs) =
     (if r < length (kBestList (vx m u))
      then (case child_derivations m us rs of
              None \<Rightarrow> None
            | Some ds \<Rightarrow> Some (kBestList (vx m u) ! r # ds))
      else None)"
| "child_derivations m _ _ = None"

definition make_derivation ::
  "('b::comm_monoid_add) hypergraph \<Rightarrow> 'b VertexMap \<Rightarrow> UnweightedHyperarc \<Rightarrow> nat list \<Rightarrow>
   'b Derivation option" where
  "make_derivation g m e bps =
     (case child_derivations m (tail e) bps of
        None \<Rightarrow> None
      | Some ds \<Rightarrow>
          Some \<lparr>edge = e, backPointers = bps,
                scoreBreakdown = snd (hyperarc_local g e) + sum_list (map scoreBreakdown ds),
                score = foldl float_add (fst (hyperarc_local g e)) (map score ds)\<rparr>)"

definition Derivation_base ::
  "('b::comm_monoid_add) hypergraph \<Rightarrow> 'b VertexMap \<Rightarrow> UnweightedHyperarc \<Rightarrow> 'b Derivation option" where
  "Derivation_base g m e = make_derivation g m e (replicate (length (tail e)) 0)"

definition Derivation_succ ::
  "('b::comm_monoid_add) hypergraph \<Rightarrow> 'b VertexMap \<Rightarrow> 'b Derivation \<Rightarrow> nat \<Rightarrow> 'b Derivation option" where
  "Derivation_succ g m d i =
     (if i < length (backPointers d)
      then make_derivation g m (edge d) ((backPointers d)[i := backPointers d ! i + 1])
      else None)"

text \<open>
  Modelled from the spec: pushing a constructed candidate (section 4.3: "if the successor is
  constructible and not already in seen, mark it seen and push it onto candidates").
\<close>

definition push_candidate ::
  "('b Derivation \<Rightarrow> 64 word) \<Rightarrow> nat \<Rightarrow> 'b Derivation option \<Rightarrow> 'b VertexMap \<Rightarrow> 'b VertexMap" where
  "push_candidate hf v cand m =
     (case cand of
        None \<Rightarrow> m
      | Some d \<Rightarrow>
          (let x = vx m v; (s, fresh) = DerivationSet_insert hf (seen x) d
           in if fresh
              then m(v \<mapsto> x\<lparr>seen := s, candidates := pq_push DerivationOrderer (candidates x) d\<rparr>)
              else m))"

text \<open>
  Modelled from the spec: \<^verbatim>\<open>GetCandidates\<close>, \<^verbatim>\<open>LazyKthBest\<close> and \<^verbatim>\<open>LazyNext\<close> (section 4.3;
  declared in the header, their bodies are not under src/).

  \<^item> \<open>LazyKthBest v k\<close>: on the first visit seed the frontier and set \<^verbatim>\<open>visited\<close>; then, while
    \<^verbatim>\<open>kBestList.size() <= k\<close> and \<^verbatim>\<open>candidates\<close> is not empty, pop the best candidate, append
    it to \<^verbatim>\<open>kBestList\<close> and call \<^verbatim>\<open>LazyNext\<close> on it.
  \<^item> \<open>GetCandidates_edges\<close>: for every incoming hyperedge (given by the hypothesis it
    produced), make sure every tail vertex has its rank 0 (\<open>ensure_best\<close>), then construct the
    base derivation of its hyperarc and push it.
  \<^item> \<open>LazyNext_from v d k i\<close>: for every position from \<open>i\<close> on, call \<^verbatim>\<open>LazyKthBest\<close> on the tail
    vertex for the incremented rank, then construct the successor and push it.

  A tail vertex that does not come before the head is a malformed hypergraph and ends the run
  with an error. The \<^verbatim>\<open>while\<close> loop carries a bound on its iterations, \<open>k + 1\<close> minus the
  length of the list at its start; running out of it is an error of its own.
\<close>

function LazyKthBest ::
    "('b Derivation \<Rightarrow> 64 word) \<Rightarrow> ('b::comm_monoid_add) hypergraph \<Rightarrow> nat \<Rightarrow> nat \<Rightarrow>
     'b VertexMap \<Rightarrow> error + 'b VertexMap"
  and GetCandidates_edges ::
    "('b Derivation \<Rightarrow> 64 word) \<Rightarrow> 'b hypergraph \<Rightarrow> nat \<Rightarrow> nat list \<Rightarrow>
     'b VertexMap \<Rightarrow> error + 'b VertexMap"
  and ensure_best ::
    "('b Derivation \<Rightarrow> 64 word) \<Rightarrow> 'b hypergraph \<Rightarrow> nat \<Rightarrow> nat list \<Rightarrow>
     'b VertexMap \<Rightarrow> error + 'b VertexMap"
  and LazyKthBest_loop ::
    "('b Derivation \<Rightarrow> 64 word) \<Rightarrow> 'b hypergraph \<Rightarrow> nat \<Rightarrow> nat \<Rightarrow> nat \<Rightarrow>
     'b VertexMap \<Rightarrow> error + 'b VertexMap"
  and LazyNext_from ::
    "('b Derivation \<Rightarrow> 64 word) \<Rightarrow> 'b hypergraph \<Rightarrow> nat \<Rightarrow> 'b Derivation \<Rightarrow> nat \<Rightarrow> nat \<Rightarrow>
     'b VertexMap \<Rightarrow> error + 'b VertexMap"
where
  "LazyKthBest hf g v k m =
     (if visited (vx m v)
      then LazyKthBest_loop hf g v k (Suc k - length (kBestList (vx m v))) m
      else (case GetCandidates_edges hf g v (incoming g (hypothesis (vx m v))) m of
              Inl e \<Rightarrow> Inl e
            | Inr m1 \<Rightarrow>
                (let m2 = m1(v \<mapsto> (vx m1 v)\<lparr>visited := True\<rparr>)
                 in LazyKthBest_loop hf g v k (Suc k - length (kBestList (vx m2 v))) m2)))"
| "GetCandidates_edges hf g v [] m = Inr m"
| "GetCandidates_edges hf g v (h # hs) m =
     (case ensure_best hf g v (antecedents (g h)) m of
        Inl e \<Rightarrow> Inl e
      | Inr m1 \<Rightarrow>
          GetCandidates_edges hf g v hs
            (push_candidate hf v (Derivation_base g m1 (CreateEdge g h)) m1))"
| "ensure_best hf g v [] m = Inr m"
| "ensure_best hf g v (u # us) m =
     (if u < v
      then (case LazyKthBest hf g u 0 (snd (FindOrCreateVertex m u)) of
              Inl e \<Rightarrow> Inl e
            | Inr m1 \<Rightarrow> ensure_best hf g v us m1)
      else Inl MalformedHypergraph)"
| "LazyKthBest_loop hf g v k n m =
     (if length (kBestList (vx m v)) \<le> k \<and> candidates (vx m v) \<noteq> []
      then (case n of
              0 \<Rightarrow> Inl LoopBoundExceeded
            | Suc n' \<Rightarrow>
                (let x = vx m v;
                     d = pq_top (candidates x);
                     m1 = m(v \<mapsto> x\<lparr>candidates := pq_pop DerivationOrderer (candidates x),
                                    kBestList := kBestList x @ [d]\<rparr>)
                 in case LazyNext_from hf g v d k 0 m1 of
                      Inl e \<Rightarrow> Inl e
                    | Inr m2 \<Rightarrow> LazyKthBest_loop hf g v k n' m2))
      else Inr m)"
| "LazyNext_from hf g v d k i m =
     (if i < length (backPointers d)
      then (if i < length (tail (edge d)) \<and> tail (edge d) ! i < v
            then (case LazyKthBest hf g (tail (edge d) ! i) (backPointers d ! i + 1) m of
                    Inl e \<Rightarrow> Inl e
                  | Inr m1 \<Rightarrow>
                      LazyNext_from hf g v d k (i + 1)
                        (push_candidate hf v (Derivation_succ g m1 d i) m1))
            else Inl MalformedHypergraph)
      else Inr m)"
  by pat_completeness auto
termination
  by (relation "inv_image (less_than <*lex*> less_than <*lex*> less_than)
       (\<lambda>x. case x of
          Inl (Inl (hf, g, v, k, m)) \<Rightarrow> (v, 3::nat, 0::nat)
        | Inl (Inr (hf, g, v, hs, m)) \<Rightarrow> (v, 2, length hs)
        | Inr (Inl (hf, g, v, us, m)) \<Rightarrow> (v, 1, length us)
        | Inr (Inr (Inl (hf, g, v, k, n, m))) \<Rightarrow> (v, 2, n)
        | Inr (Inr (Inr (hf, g, v, d, k, i, m))) \<Rightarrow> (v, 1, length (backPointers d) - i))")
     auto

declare LazyKthBest.simps [simp del] LazyKthBest_loop.simps [simp del] LazyNext_from.simps [simp del]

text \<open>
  Modelled from the spec: \<^verbatim>\<open>Extract\<close> (section 4.4; declared in the header, its body is not
  under src/). Every root gets its vertex; the merge frontier is seeded with the rank 0 of
  each root as an entry (score, root index, rank); then, at most \<open>k\<close> times, the best-scoring
  entry is popped and its derivation emitted, and the next rank of that root is pushed if
  \<^verbatim>\<open>LazyKthBest\<close> can supply it. The frontier is a priority queue on the score, the vertex map
  starts empty.
\<close>

definition frontier_less :: "float \<times> nat \<times> nat \<Rightarrow> float \<times> nat \<times> nat \<Rightarrow> bool" where
  "frontier_less a b = float_less (fst a) (fst b)"

fun create_roots :: "'b VertexMap \<Rightarrow> nat list \<Rightarrow> 'b VertexMap" where
  "create_roots m [] = m"
| "create_roots m (r # rs) = create_roots (snd (FindOrCreateVertex m r)) rs"

fun seed_frontier ::
  "('b Derivation \<Rightarrow> 64 word) \<Rightarrow> ('b::comm_monoid_add) hypergraph \<Rightarrow> nat list \<Rightarrow> nat \<Rightarrow>
   'b VertexMap \<Rightarrow> (float \<times> nat \<times> nat) list \<Rightarrow> error + 'b VertexMap \<times> (float \<times> nat \<times> nat) list" where
  "seed_frontier hf g [] i m fr = Inr (m, fr)"
| "seed_frontier hf g (r # rs) i m fr =
     (case LazyKthBest hf g r 0 m of
        Inl e \<Rightarrow> Inl e
      | Inr m1 \<Rightarrow>
          seed_frontier hf g rs (i + 1) m1
            (if 0 < length (kBestList (vx m1 r))
             then pq_push frontier_less fr (score (kBestList (vx m1 r) ! 0), i, 0)
             else fr))"

fun merge_loop ::
  "('b Derivation \<Rightarrow> 64 word) \<Rightarrow> ('b::comm_monoid_add) hypergraph \<Rightarrow> nat list \<Rightarrow> nat \<Rightarrow>
   'b VertexMap \<Rightarrow> (float \<times> nat \<times> nat) list \<Rightarrow> 'b Derivation list \<Rightarrow>
   error + 'b VertexMap \<times> 'b Derivation list" where
  "merge_loop hf g roots 0 m fr out = Inr (m, out)"
| "merge_loop hf g roots (Suc n) m fr out =
     (if fr = [] then Inr (m, out)
      else (let (s, i, rank) = pq_top fr;
                fr1 = pq_pop frontier_less fr;
                root = roots ! i;
                d = kBestList (vx m root) ! rank
            in case LazyKthBest hf g root (rank + 1) m of
                 Inl e \<Rightarrow> Inl e
               | Inr m1 \<Rightarrow>
                   merge_loop hf g roots n m1
                     (if rank + 1 < length (kBestList (vx m1 root))
                      then pq_push frontier_less fr1
                             (score (kBestList (vx m1 root) ! (rank + 1)), i, rank + 1)
                      else fr1)
                     (out @ [d])))"

definition Extract_run ::
  "('b Derivation \<Rightarrow> 64 word) \<Rightarrow> ('b::comm_monoid_add) hypergraph \<Rightarrow> nat list \<Rightarrow> nat \<Rightarrow>
   error + 'b VertexMap \<times> 'b Derivation list" where
  "Extract_run hf g topHypos k =
     (case seed_frontier hf g topHypos 0 (create_roots Map.empty topHypos) [] of
        Inl e \<Rightarrow> Inl e
      | Inr (m, fr) \<Rightarrow> merge_loop hf g topHypos k m fr [])"

definition Extract ::
  "('b Derivation \<Rightarrow> 64 word) \<Rightarrow> ('b::comm_monoid_add) hypergraph \<Rightarrow> nat list \<Rightarrow> nat \<Rightarrow>
   error + 'b Derivation list" where
  "Extract hf g topHypos k =
     (case Extract_run hf g topHypos k of Inl e \<Rightarrow> Inl e | Inr (m, out) \<Rightarrow> Inr out)"

section \<open>Invariants of the extraction state\<close>

text \<open>
  The structural identity of a derivation, and a hash function that is consistent with the
  equality predicate (as \<^verbatim>\<open>DerivationHasher\<close> is).
\<close>

definition dkey :: "'b Derivation \<Rightarrow> nat \<times> nat list \<times> nat list" where
  "dkey d = (head (edge d), tail (edge d), backPointers d)"

definition hash_consistent :: "('b Derivation \<Rightarrow> 64 word) \<Rightarrow> bool" where
  "hash_consistent hf = (\<forall>d e. DerivationEqualityPred d e \<longrightarrow> hf d = hf e)"

text \<open>Non-increasing scores, with the operator \<^verbatim>\<open><=\<close> of the scores.\<close>

definition scores_desc :: "'b Derivation list \<Rightarrow> bool" where
  "scores_desc ds = sorted_wrt (\<lambda>a b. float_le (score b) (score a)) ds"

text \<open>
  Finite scores, the number a finite score denotes, and a hypergraph all of whose local
  scores are finite.
\<close>

fun is_finite :: "float \<Rightarrow> bool" where
  "is_finite (Finite x) = True"
| "is_finite _ = False"

fun rval :: "float \<Rightarrow> real" where
  "rval (Finite x) = x"
| "rval _ = 0"

definition rscore :: "'b Derivation \<Rightarrow> real" where
  "rscore d = rval (score d)"

definition finite_scores :: "'b hypergraph \<Rightarrow> bool" where
  "finite_scores g = (\<forall>h. is_finite (localScore (g h)))"

text \<open>
  A derivation of vertex \<open>v\<close> is well formed in a state when its hyperarc is that of an
  incoming hyperedge of \<open>v\<close>, its tail vertices come before \<open>v\<close>, and it is what the
  constructor builds for its hyperarc and back pointers in that state: the child ranks exist
  and score and breakdown are the local contribution plus the children's.
\<close>

definition deriv_ok ::
  "('b::comm_monoid_add) hypergraph \<Rightarrow> 'b VertexMap \<Rightarrow> nat \<Rightarrow> 'b Derivation \<Rightarrow> bool" where
  "deriv_ok g m v d =
     (head (edge d) \<in> set (incoming g v) \<and> edge d = CreateEdge g (head (edge d)) \<and>
      (\<forall>u \<in> set (tail (edge d)). u < v) \<and>
      make_derivation g m (edge d) (backPointers d) = Some d)"

text \<open>
  The order of a vertex: its scores are finite, the k-best list is non-increasing, the
  candidates are a heap, and no candidate has a higher score than an entry of the list.
\<close>

definition ordered_ok :: "'b Vertex \<Rightarrow> bool" where
  "ordered_ok x =
     ((\<forall>d \<in> set (kBestList x @ candidates x). is_finite (score d)) \<and>
      sorted_wrt (\<lambda>a b. rscore b \<le> rscore a) (kBestList x) \<and>
      is_heap rscore (candidates x) \<and>
      (\<forall>c \<in> set (candidates x). \<forall>b \<in> set (kBestList x). rscore c \<le> rscore b))"

text \<open>
  The invariant of a vertex. What it says of the identities of the derivations holds for
  all scores; the order is kept when the local scores of the hypergraph are finite.
\<close>

definition vertex_ok ::
  "('b Derivation \<Rightarrow> 64 word) \<Rightarrow> ('b::comm_monoid_add) hypergraph \<Rightarrow> 'b VertexMap \<Rightarrow> nat \<Rightarrow> bool" where
  "vertex_ok hf g m v =
     (hypothesis (vx m v) = v \<and>
      (\<not> visited (vx m v) \<longrightarrow> kBestList (vx m v) = []) \<and>
      distinct (map dkey (kBestList (vx m v) @ candidates (vx m v))) \<and>
      map fst (seen (vx m v)) = map hf (map snd (seen (vx m v))) \<and>
      distinct (map dkey (map snd (seen (vx m v)))) \<and>
      set (map dkey (map snd (seen (vx m v))))
        = set (map dkey (kBestList (vx m v) @ candidates (vx m v))) \<and>
      (\<forall>d \<in> set (kBestList (vx m v) @ candidates (vx m v)). deriv_ok g m v d) \<and>
      (finite_scores g \<longrightarrow> ordered_ok (vx m v)))"

definition state_ok ::
  "('b Derivation \<Rightarrow> 64 word) \<Rightarrow> ('b::comm_monoid_add) hypergraph \<Rightarrow> 'b VertexMap \<Rightarrow> bool" where
  "state_ok hf g m = (hash_consistent hf \<and> (\<forall>v. vertex_ok hf g m v))"

text \<open>One state grows into another: every k-best list is extended at its end.\<close>

definition grows :: "'b VertexMap \<Rightarrow> 'b VertexMap \<Rightarrow> bool" where
  "grows m m' = (\<forall>w. prefix (kBestList (vx m w)) (kBestList (vx m' w)))"

text \<open>Vertices from \<open>v\<close> on are untouched.\<close>

definition untouched_from :: "nat \<Rightarrow> 'b VertexMap \<Rightarrow> 'b VertexMap \<Rightarrow> bool" where
  "untouched_from v m m' = (\<forall>w. v \<le> w \<longrightarrow> vx m' w = vx m w)"

text \<open>
  What each of the five procedures keeps, stated for the induction over their mutual
  recursion: started in a state that satisfies the invariant, a run that returns ends in such
  a state, k-best lists have only been extended, and vertices above the one worked on are
  untouched.
\<close>

definition keeps_LazyKthBest where
  "keeps_LazyKthBest hf g v k m = (\<forall>m'. state_ok hf g m \<longrightarrow> LazyKthBest hf g v k m = Inr m' \<longrightarrow>
     state_ok hf g m' \<and> grows m m' \<and> untouched_from (Suc v) m m')"

definition keeps_GetCandidates where
  "keeps_GetCandidates hf g v hs m = (\<forall>m'. state_ok hf g m \<longrightarrow> \<not> visited (vx m v) \<longrightarrow>
     set hs \<subseteq> set (incoming g v) \<longrightarrow> GetCandidates_edges hf g v hs m = Inr m' \<longrightarrow>
     state_ok hf g m' \<and> grows m m' \<and> untouched_from (Suc v) m m' \<and> \<not> visited (vx m' v))"

definition keeps_ensure_best where
  "keeps_ensure_best hf g v us m = (\<forall>m'. state_ok hf g m \<longrightarrow> ensure_best hf g v us m = Inr m' \<longrightarrow>
     state_ok hf g m' \<and> grows m m' \<and> untouched_from v m m' \<and> (\<forall>u \<in> set us. u < v))"

definition keeps_loop where
  "keeps_loop hf g v k n m = (\<forall>m'. state_ok hf g m \<longrightarrow> visited (vx m v) \<longrightarrow>
     LazyKthBest_loop hf g v k n m = Inr m' \<longrightarrow>
     state_ok hf g m' \<and> grows m m' \<and> untouched_from (Suc v) m m')"

definition keeps_LazyNext where
  "keeps_LazyNext hf g v d k i m = (\<forall>m'. state_ok hf g m \<longrightarrow> visited (vx m v) \<longrightarrow>
     kBestList (vx m v) \<noteq> [] \<longrightarrow> d = last (kBestList (vx m v)) \<longrightarrow>
     LazyNext_from hf g v d k i m = Inr m' \<longrightarrow>
     state_ok hf g m' \<and> grows m m' \<and> untouched_from (Suc v) m m' \<and>
     kBestList (vx m' v) = kBestList (vx m v) \<and> visited (vx m' v))"

text \<open>
  One step of an extraction: a call of one of the procedures, as the algorithm calls it, that
  returns. \<^verbatim>\<open>GetCandidates\<close> runs on a vertex not yet visited and on incoming hyperedges of
  that vertex, the \<^verbatim>\<open>while\<close> loop on a visited one, \<^verbatim>\<open>LazyNext\<close> on the derivation just appended
  to the k-best list.
\<close>

definition extraction_step ::
  "('b Derivation \<Rightarrow> 64 word) \<Rightarrow> ('b::comm_monoid_add) hypergraph \<Rightarrow> 'b VertexMap \<Rightarrow> 'b VertexMap \<Rightarrow> bool" where
  "extraction_step hf g m m' =
     ((\<exists>v k. LazyKthBest hf g v k m = Inr m') \<or>
      (\<exists>v hs. \<not> visited (vx m v) \<and> set hs \<subseteq> set (incoming g v) \<and>
         GetCandidates_edges hf g v hs m = Inr m') \<or>
      (\<exists>v us. ensure_best hf g v us m = Inr m') \<or>
      (\<exists>v k n. visited (vx m v) \<and> LazyKthBest_loop hf g v k n m = Inr m') \<or>
      (\<exists>v k i. visited (vx m v) \<and> kBestList (vx m v) \<noteq> [] \<and>
         LazyNext_from hf g v (last (kBestList (vx m v))) k i m = Inr m') \<or>
      (\<exists>rs j fr fr'. seed_frontier hf g rs j m fr = Inr (m', fr')) \<or>
      (\<exists>roots n fr out out'. merge_loop hf g roots n m fr out = Inr (m', out')))"

text \<open>
  Hypergraphs for concrete runs, and the hash function of the header with Boost's combine.
  In \<open>example_graph\<close> hypothesis 1 has two incoming hyperedges, its own over hypothesis 0 and
  that of hypothesis 2. \<open>nan_graph\<close> has a root with four childless incoming hyperedges, one
  of them with a NaN score. The other graphs are those of the scenarios of section 8.
\<close>

definition hypo :: "nat list \<Rightarrow> real \<Rightarrow> nat list \<Rightarrow> real ChartHypothesis" where
  "hypo t s r = \<lparr>antecedents = t, localScore = Finite s, localBreakdown = s, recombined = r\<rparr>"

definition example_graph :: "real hypergraph" where
  "example_graph = (\<lambda>h. if h = 0 then hypo [] 1 []
                         else if h = 1 then hypo [0] 5 [2]
                         else if h = 2 then hypo [] 3 []
                         else hypo [] 0 [])"

definition nan_graph :: "real hypergraph" where
  "nan_graph = (\<lambda>h. if h = 1 then hypo [] 5 [2, 3, 4]
                     else if h = 2 then (hypo [] 0 [])\<lparr>localScore := NaN\<rparr>
                     else if h = 3 then hypo [] 4 []
                     else if h = 4 then hypo [] 9 []
                     else hypo [] 0 [])"

definition two_edges_graph :: "real hypergraph" where
  "two_edges_graph = (\<lambda>h. if h = 1 then hypo [] 5 [2]
                           else if h = 2 then hypo [] 3 []
                           else hypo [] 0 [])"

definition child_graph :: "real hypergraph" where
  "child_graph = (\<lambda>h. if h = 1 then hypo [] 2 [2, 3]
                       else if h = 2 then hypo [] 1 []
                       else if h = 3 then hypo [] 0 []
                       else if h = 4 then hypo [1] 10 []
                       else hypo [] 0 [])"

definition tie_graph :: "real hypergraph" where
  "tie_graph = (\<lambda>h. hypo [] 9 [])"

definition boost_hasher :: "real Derivation \<Rightarrow> 64 word" where
  "boost_hasher = DerivationHasher boost_hc_ptr boost_hc_ptrs boost_hc_sizes"

section \<open>Counting derivations, and completeness of the extraction state\<close>

text \<open>
  The hypergraph is well formed when the antecedents of every incoming hyperedge of a
  hypothesis come before that hypothesis.
\<close>

definition wf_hypergraph :: "'b hypergraph \<Rightarrow> bool" where
  "wf_hypergraph g = (\<forall>v. \<forall>h \<in> set (incoming g v). \<forall>u \<in> set (antecedents (g h)). u < v)"

text \<open>
  The number of derivations of a vertex: for every one of its incoming hyperedges, one for
  every choice of a derivation for each antecedent.
\<close>

function num_derivations :: "'b hypergraph \<Rightarrow> nat \<Rightarrow> nat" where
  "num_derivations g v =
     (\<Sum>h \<in> set (incoming g v).
        prod_list (map (\<lambda>u. if u < v then num_derivations g u else 0) (antecedents (g h))))"
  by pat_completeness auto
termination
  by (relation "measure snd") auto

declare num_derivations.simps [simp del]

definition total_derivations :: "'b hypergraph \<Rightarrow> nat list \<Rightarrow> nat" where
  "total_derivations g roots = sum_list (map (num_derivations g) roots)"

text \<open>
  The identities of the derivations of a vertex: the hyperarc of an incoming hyperedge and a
  rank below the number of derivations of each tail vertex.
\<close>

definition rank_vectors :: "nat list \<Rightarrow> nat list set" where
  "rank_vectors c = {bp. length bp = length c \<and> (\<forall>i < length c. bp ! i < c ! i)}"

definition derivation_keys :: "'b hypergraph \<Rightarrow> nat \<Rightarrow> (nat \<times> nat list \<times> nat list) set" where
  "derivation_keys g v =
     {(h, antecedents (g h), bp) | h bp. h \<in> set (incoming g v) \<and>
        bp \<in> rank_vectors (map (\<lambda>u. if u < v then num_derivations g u else 0) (antecedents (g h)))}"

text \<open>
  What completeness needs of a vertex once it is visited. \<open>seeded\<close>: the base derivation of an
  incoming hyperedge all of whose tail vertices have a derivation has been seen. \<open>closed_at\<close>:
  the successor of a derivation at position \<open>i\<close> has been seen, if the tail vertex has a
  derivation of the next rank. \<open>complete_ok\<close>: every incoming hyperedge is seeded and every
  entry of the k-best list is closed at every position. \<open>partial_ok\<close>: the same while
  \<^verbatim>\<open>LazyNext\<close> works on the last entry and has done the positions below \<open>i\<close>.
\<close>

definition seenkeys :: "'b Vertex \<Rightarrow> (nat \<times> nat list \<times> nat list) set" where
  "seenkeys x = set (map dkey (map snd (seen x)))"

definition seeded :: "'b hypergraph \<Rightarrow> nat \<Rightarrow> 'b Vertex \<Rightarrow> nat \<Rightarrow> bool" where
  "seeded g v x h =
     ((\<forall>u \<in> set (antecedents (g h)). u < v \<and> 0 < num_derivations g u) \<longrightarrow>
      (h, antecedents (g h), replicate (length (antecedents (g h))) 0) \<in> seenkeys x)"

definition closed_at :: "'b hypergraph \<Rightarrow> nat \<Rightarrow> 'b Vertex \<Rightarrow> 'b Derivation \<Rightarrow> nat \<Rightarrow> bool" where
  "closed_at g v x d i =
     (i < length (backPointers d) \<and>
      backPointers d ! i + 1 < num_derivations g (tail (edge d) ! i) \<longrightarrow>
      (head (edge d), tail (edge d), (backPointers d)[i := backPointers d ! i + 1]) \<in> seenkeys x)"

definition complete_ok :: "'b hypergraph \<Rightarrow> nat \<Rightarrow> 'b Vertex \<Rightarrow> bool" where
  "complete_ok g v x =
     (visited x \<longrightarrow>
        (\<forall>h \<in> set (incoming g v). seeded g v x h) \<and>
        (\<forall>d \<in> set (kBestList x). \<forall>i. closed_at g v x d i))"

definition partial_ok :: "'b hypergraph \<Rightarrow> nat \<Rightarrow> 'b Vertex \<Rightarrow> nat \<Rightarrow> bool" where
  "partial_ok g v x i =
     ((\<forall>h \<in> set (incoming g v). seeded g v x h) \<and>
      (\<forall>d \<in> set (butlast (kBestList x)). \<forall>j. closed_at g v x d j) \<and>
      (\<forall>j < i. closed_at g v x (last (kBestList x)) j))"

text \<open>Every vertex below \<open>n\<close> is complete.\<close>

definition done_upto :: "'b hypergraph \<Rightarrow> 'b VertexMap \<Rightarrow> nat \<Rightarrow> bool" where
  "done_upto g m n = (\<forall>w < n. complete_ok g w (vx m w))"

text \<open>
  What each of the five procedures achieves on a well-formed hypergraph, stated for the
  induction over their mutual recursion: the call returns without an error, leaves every
  vertex it has worked on complete, and \<^verbatim>\<open>LazyKthBest\<close> supplies rank \<open>k\<close> if the vertex has that
  many derivations.
\<close>

definition complete_LazyKthBest where
  "complete_LazyKthBest hf g v k m =
     (state_ok hf g m \<and> wf_hypergraph g \<and> done_upto g m (Suc v) \<longrightarrow>
      (\<exists>m'. LazyKthBest hf g v k m = Inr m' \<and> done_upto g m' (Suc v) \<and>
            min (Suc k) (num_derivations g v) \<le> length (kBestList (vx m' v))))"

definition complete_GetCandidates where
  "complete_GetCandidates hf g v hs m =
     (state_ok hf g m \<and> wf_hypergraph g \<and> \<not> visited (vx m v) \<and> done_upto g m v \<and>
      set hs \<subseteq> set (incoming g v) \<longrightarrow>
      (\<exists>m'. GetCandidates_edges hf g v hs m = Inr m' \<and> done_upto g m' v \<and>
            seenkeys (vx m v) \<subseteq> seenkeys (vx m' v) \<and>
            (\<forall>h \<in> set hs. seeded g v (vx m' v) h)))"

definition complete_ensure_best where
  "complete_ensure_best hf g v us m =
     (state_ok hf g m \<and> wf_hypergraph g \<and> done_upto g m v \<and> (\<forall>u \<in> set us. u < v) \<longrightarrow>
      (\<exists>m'. ensure_best hf g v us m = Inr m' \<and> done_upto g m' v \<and>
            (\<forall>u \<in> set us. min 1 (num_derivations g u) \<le> length (kBestList (vx m' u)))))"

definition complete_loop where
  "complete_loop hf g v k n m =
     (state_ok hf g m \<and> wf_hypergraph g \<and> visited (vx m v) \<and> done_upto g m (Suc v) \<and>
      Suc k - length (kBestList (vx m v)) \<le> n \<longrightarrow>
      (\<exists>m'. LazyKthBest_loop hf g v k n m = Inr m' \<and> done_upto g m' (Suc v) \<and>
            min (Suc k) (num_derivations g v) \<le> length (kBestList (vx m' v))))"

definition complete_LazyNext where
  "complete_LazyNext hf g v d k i m =
     (state_ok hf g m \<and> wf_hypergraph g \<and> visited (vx m v) \<and> kBestList (vx m v) \<noteq> [] \<and>
      d = last (kBestList (vx m v)) \<and> done_upto g m v \<and> partial_ok g v (vx m v) i \<longrightarrow>
      (\<exists>m'. LazyNext_from hf g v d k i m = Inr m' \<and> done_upto g m' (Suc v)))"

text \<open>
  The merge frontier of \<^verbatim>\<open>Extract\<close>, after the first \<open>p\<close> roots have been seeded and \<open>e i\<close>
  derivations of root \<open>i\<close> have been emitted: at most one entry for a root index, each entry
  naming the next rank of its root with its score, and a root without an entry has no
  derivation left. When the local scores are finite the frontier is a heap.
\<close>

definition frontier_ok ::
  "'b hypergraph \<Rightarrow> 'b VertexMap \<Rightarrow> nat list \<Rightarrow> nat \<Rightarrow> (nat \<Rightarrow> nat) \<Rightarrow> (float \<times> nat \<times> nat) list \<Rightarrow> bool" where
  "frontier_ok g m roots p e fr =
     (distinct (map (\<lambda>x. fst (snd x)) fr) \<and>
      (\<forall>x \<in> set fr. fst (snd x) < p \<and> snd (snd x) = e (fst (snd x)) \<and>
         snd (snd x) < length (kBestList (vx m (roots ! fst (snd x)))) \<and>
         fst x = score (kBestList (vx m (roots ! fst (snd x))) ! snd (snd x))) \<and>
      (\<forall>i < p. e i \<le> num_derivations g (roots ! i) \<and>
         (i \<in> set (map (\<lambda>x. fst (snd x)) fr) \<or> e i = num_derivations g (roots ! i))) \<and>
      (finite_scores g \<longrightarrow> is_heap (\<lambda>x. rval (fst x)) fr))"

section \<open>Theorems on the active chart\<close>

subsection \<open>Construction and the assertion\<close>

lemma ctor_Inr_iff:
  "SymbolBindElement_ctor r w h = Inr e \<longleftrightarrow>
     ((h \<noteq> None) = isNonTerminal w \<and> e = \<lparr>range' = r, word = w, hypos = h\<rparr>)"
  by (auto simp: SymbolBindElement_ctor_def)

lemma ctor_Inl_iff:
  "SymbolBindElement_ctor r w h = Inl x \<longleftrightarrow>
     ((h \<noteq> None) \<noteq> isNonTerminal w \<and> x = AssertionFailed)"
  by (auto simp: SymbolBindElement_ctor_def)

lemma Add_Inr:
  assumes "Add sb r w h = Inr sb'"
  shows "coll sb' = coll sb @ [\<lparr>range' = r, word = w, hypos = h\<rparr>]"
    and "(h \<noteq> None) = isNonTerminal w"
    and "numNT sb' = (if isNonTerminal w then numNT sb + 1 else numNT sb)"
  using assms
  by (auto simp: Add_def Let_def ctor_Inr_iff split: sum.splits if_splits)

lemma Add_all_ok:
  "Add_all sb adds = Inr sb' \<Longrightarrow> all_ok (coll sb) \<Longrightarrow> all_ok (coll sb')"
proof (induction adds arbitrary: sb)
  case Nil
  then show ?case by simp
next
  case (Cons a adds)
  obtain r w h where a: "a = (r, w, h)" by (cases a) auto
  from Cons.prems(1) a obtain sb1 where
    s1: "Add sb r w h = Inr sb1" and s2: "Add_all sb1 adds = Inr sb'"
    by (auto split: sum.splits)
  have "all_ok (coll sb1)"
    using Add_Inr(1,2)[OF s1] Cons.prems(2) by (simp add: all_ok_def elem_ok_def)
  with Cons.IH[OF s2] show ?case .
qed

lemma Add_all_prefix:
  "Add_all sb adds = Inr sb' \<Longrightarrow> take (length (coll sb)) (coll sb') = coll sb"
proof (induction adds arbitrary: sb)
  case Nil
  then show ?case by simp
next
  case (Cons a adds)
  obtain r w h where a: "a = (r, w, h)" by (cases a) auto
  from Cons.prems a obtain sb1 where
    s1: "Add sb r w h = Inr sb1" and s2: "Add_all sb1 adds = Inr sb'"
    by (auto split: sum.splits)
  have "take (length (coll sb1)) (coll sb') = coll sb1" by (rule Cons.IH[OF s2])
  then have "take (length (coll sb)) (take (length (coll sb1)) (coll sb')) = take (length (coll sb)) (coll sb1)"
    by simp
  then show ?case using Add_Inr(1)[OF s1] by (simp add: min_def)
qed

text \<open>
  C9. The constructor returns an element exactly when \<^verbatim>\<open>hypos\<close> is non-null if and only if
  the word is a non-terminal, and the element then has that property; every other
  combination is rejected by the assertion. \<^verbatim>\<open>Add\<close> builds its element with this constructor
  and nothing in the file writes an element afterwards: in a \<^verbatim>\<open>SymbolBind\<close> built by any
  sequence of \<^verbatim>\<open>Add\<close> calls the elements already there are unchanged and all elements satisfy
  the property.
\<close>

theorem SymbolBindElement_hypos_iff_nonterminal:
  "(SymbolBindElement_ctor r w h = Inr e \<longrightarrow>
      elem_ok e \<and> e = \<lparr>range' = r, word = w, hypos = h\<rparr>)
   \<and> (SymbolBindElement_ctor r w h = Inl AssertionFailed \<longleftrightarrow> (h \<noteq> None) \<noteq> isNonTerminal w)
   \<and> (all_ok (coll sb) \<and> Add_all sb adds = Inr sb' \<longrightarrow>
        all_ok (coll sb') \<and> take (length (coll sb)) (coll sb') = coll sb)"
  using Add_all_ok[of sb adds sb'] Add_all_prefix[of sb adds sb']
  by (auto simp: ctor_Inr_iff ctor_Inl_iff elem_ok_def)

theorem SymbolBindElement_hypos_iff_nonterminal_witness:
  "SymbolBindElement_ctor 7 \<lparr>isNonTerminal = True\<rparr> (Some 3)
     = Inr \<lparr>range' = 7, word = \<lparr>isNonTerminal = True\<rparr>, hypos = Some 3\<rparr>
   \<and> elem_ok \<lparr>range' = 7, word = \<lparr>isNonTerminal = True\<rparr>, hypos = Some 3\<rparr>
   \<and> SymbolBindElement_ctor 7 \<lparr>isNonTerminal = True\<rparr> None = Inl AssertionFailed
   \<and> SymbolBindElement_ctor 7 \<lparr>isNonTerminal = False\<rparr> (Some 3) = Inl AssertionFailed
   \<and> all_ok (coll \<lparr>coll = [], numNT = 0\<rparr>)
   \<and> Add_all \<lparr>coll = [], numNT = 0\<rparr>
        [(7, \<lparr>isNonTerminal = True\<rparr>, Some 3), (8, \<lparr>isNonTerminal = False\<rparr>, None)]
      = Inr \<lparr>coll = [\<lparr>range' = 7, word = \<lparr>isNonTerminal = True\<rparr>, hypos = Some 3\<rparr>,
                      \<lparr>range' = 8, word = \<lparr>isNonTerminal = False\<rparr>, hypos = None\<rparr>],
              numNT = 1\<rparr>
   \<and> all_ok [\<lparr>range' = 7, word = \<lparr>isNonTerminal = True\<rparr>, hypos = Some 3\<rparr>,
             \<lparr>range' = 8, word = \<lparr>isNonTerminal = False\<rparr>, hypos = None\<rparr>]"
  using SymbolBindElement_hypos_iff_nonterminal
    [of 7 "\<lparr>isNonTerminal = True\<rparr>" "Some 3"
        "\<lparr>range' = 7, word = \<lparr>isNonTerminal = True\<rparr>, hypos = Some 3\<rparr>"
        "\<lparr>coll = [], numNT = 0\<rparr>"
        "[(7, \<lparr>isNonTerminal = True\<rparr>, Some 3), (8, \<lparr>isNonTerminal = False\<rparr>, None)]"
        "\<lparr>coll = [\<lparr>range' = 7, word = \<lparr>isNonTerminal = True\<rparr>, hypos = Some 3\<rparr>,
                  \<lparr>range' = 8, word = \<lparr>isNonTerminal = False\<rparr>, hypos = None\<rparr>],
          numNT = 1\<rparr>"]
  by (simp add: SymbolBindElement_ctor_def Add_def all_ok_def elem_ok_def)

subsection \<open>The non-terminal counter and \<^verbatim>\<open>GetNTElements\<close>\<close>

lemma GetNTElements_loop_eq:
  "GetNTElements_loop sb i ret = ret @ filter (\<lambda>j. isNT (coll sb ! j)) [i..<length (coll sb)]"
proof (induction sb i ret rule: GetNTElements_loop.induct)
  case (1 sb i ret)
  show ?case
  proof (cases "i < length (coll sb)")
    case True
    then have up: "[i..<length (coll sb)] = i # [i + 1..<length (coll sb)]"
      by (simp add: upt_conv_Cons)
    show ?thesis
      using True "1.IH"[OF True refl]
      by (subst GetNTElements_loop.simps) (simp add: up isNT_def Let_def)
  next
    case False
    then show ?thesis by (subst GetNTElements_loop.simps) simp
  qed
qed

lemma GetNTElements_eq:
  "GetNTElements sb = filter (\<lambda>j. isNT (coll sb ! j)) [0..<length (coll sb)]"
  by (simp add: GetNTElements_def GetNTElements_loop_eq)

lemma map_nth_filter_upt:
  "map (\<lambda>j. xs ! j) (filter (\<lambda>j. P (xs ! j)) [0..<length xs]) = filter P xs"
proof -
  have "map (\<lambda>j. xs ! j) (filter (\<lambda>j. P (xs ! j)) [0..<length xs])
        = filter P (map (\<lambda>j. xs ! j) [0..<length xs])"
    by (simp add: filter_map comp_def)
  then show ?thesis by (simp add: map_nth)
qed

lemma isNT_simp [simp]: "isNT \<lparr>range' = r, word = w, hypos = h\<rparr> = isNonTerminal w"
  by (simp add: isNT_def)

lemma Add_all_numNT:
  "Add_all sb adds = Inr sb' \<Longrightarrow> numNT sb = of_nat (length (filter isNT (coll sb)))
     \<Longrightarrow> numNT sb' = of_nat (length (filter isNT (coll sb')))"
proof (induction adds arbitrary: sb)
  case Nil
  then show ?case by simp
next
  case (Cons a adds)
  obtain r w h where a: "a = (r, w, h)" by (cases a) auto
  from Cons.prems(1) a obtain sb1 where
    s1: "Add sb r w h = Inr sb1" and s2: "Add_all sb1 adds = Inr sb'"
    by (auto split: sum.splits)
  have "numNT sb1 = of_nat (length (filter isNT (coll sb1)))"
    using Add_Inr(1,3)[OF s1] Cons.prems(2) by simp
  with Cons.IH[OF s2] show ?case .
qed

lemma Add_all_coll:
  "Add_all sb adds = Inr sb' \<Longrightarrow>
   coll sb' = coll sb @ map (\<lambda>(r, w, h). \<lparr>range' = r, word = w, hypos = h\<rparr>) adds"
proof (induction adds arbitrary: sb)
  case Nil
  then show ?case by simp
next
  case (Cons a adds)
  obtain r w h where a: "a = (r, w, h)" by (cases a) auto
  from Cons.prems a obtain sb1 where
    s1: "Add sb r w h = Inr sb1" and s2: "Add_all sb1 adds = Inr sb'"
    by (auto split: sum.splits)
  show ?case using Cons.IH[OF s2] Add_Inr(1)[OF s1] a by simp
qed

lemma Add_all_count:
  "Add_all sb adds = Inr sb' \<Longrightarrow>
   numNT sb' = numNT sb + of_nat (length (filter (\<lambda>(r, w, h). isNonTerminal w) adds))"
proof (induction adds arbitrary: sb)
  case Nil
  then show ?case by simp
next
  case (Cons a adds)
  obtain r w h where a: "a = (r, w, h)" by (cases a) auto
  from Cons.prems a obtain sb1 where
    s1: "Add sb r w h = Inr sb1" and s2: "Add_all sb1 adds = Inr sb'"
    by (auto split: sum.splits)
  show ?case using Cons.IH[OF s2] Add_Inr(3)[OF s1] a by simp
qed

lemma filter_isNT_added:
  "filter isNT (map (\<lambda>(r, w, h). \<lparr>range' = r, word = w, hypos = h\<rparr>) adds)
   = map (\<lambda>(r, w, h). \<lparr>range' = r, word = w, hypos = h\<rparr>)
       (filter (\<lambda>(r, w, h). isNonTerminal w) adds)"
  by (induction adds) auto

lemma unat_of_nat_64: "n < 2 ^ 64 \<Longrightarrow> unat (of_nat n :: 64 word) = n"
  by (simp add: unat_of_nat)

lemma numNT_parts:
  assumes "numNT sb = of_nat (length (filter isNT (coll sb)))"
    and "Add_all sb adds = Inr sb'"
  shows "numNT sb' = of_nat (length (filter isNT (coll sb')))"
    and "length (coll sb') < 2 ^ 64 \<longrightarrow> unat (numNT sb') = length (filter isNT (coll sb'))"
    and "GetNTElements sb' = filter (\<lambda>j. isNT (coll sb' ! j)) [0..<length (coll sb')]"
    and "map (\<lambda>j. coll sb' ! j) (GetNTElements sb') = filter isNT (coll sb')"
    and "sorted_wrt (<) (GetNTElements sb')"
    and "of_nat (length (GetNTElements sb')) = numNT sb'"
    and "coll sb' = coll sb @ map (\<lambda>(r, w, h). \<lparr>range' = r, word = w, hypos = h\<rparr>) adds"
    and "numNT sb' = numNT sb + of_nat (length (filter (\<lambda>(r, w, h). isNonTerminal w) adds))"
    and "map (\<lambda>j. coll sb' ! j) (GetNTElements sb')
         = filter isNT (coll sb)
           @ map (\<lambda>(r, w, h). \<lparr>range' = r, word = w, hypos = h\<rparr>)
               (filter (\<lambda>(r, w, h). isNonTerminal w) adds)"
proof -
  show n: "numNT sb' = of_nat (length (filter isNT (coll sb')))"
    using Add_all_numNT[OF assms(2,1)] .
  show "length (coll sb') < 2 ^ 64 \<longrightarrow> unat (numNT sb') = length (filter isNT (coll sb'))"
  proof
    assume "length (coll sb') < 2 ^ 64"
    moreover have "length (filter isNT (coll sb')) \<le> length (coll sb')" by simp
    ultimately have "length (filter isNT (coll sb')) < 2 ^ 64" by (rule le_less_trans[rotated])
    then show "unat (numNT sb') = length (filter isNT (coll sb'))"
      by (simp add: n unat_of_nat_64)
  qed
  show "GetNTElements sb' = filter (\<lambda>j. isNT (coll sb' ! j)) [0..<length (coll sb')]"
    by (rule GetNTElements_eq)
  show m: "map (\<lambda>j. coll sb' ! j) (GetNTElements sb') = filter isNT (coll sb')"
    by (simp add: GetNTElements_eq map_nth_filter_upt)
  show "sorted_wrt (<) (GetNTElements sb')"
    by (simp add: GetNTElements_eq sorted_wrt_filter)
  have "length (GetNTElements sb') = length (filter isNT (coll sb'))"
    using arg_cong[OF m, of length] by simp
  then show "of_nat (length (GetNTElements sb')) = numNT sb'"
    by (simp add: n)
  show c: "coll sb' = coll sb @ map (\<lambda>(r, w, h). \<lparr>range' = r, word = w, hypos = h\<rparr>) adds"
    using Add_all_coll[OF assms(2)] .
  show "numNT sb' = numNT sb + of_nat (length (filter (\<lambda>(r, w, h). isNonTerminal w) adds))"
    using Add_all_count[OF assms(2)] .
  show "map (\<lambda>j. coll sb' ! j) (GetNTElements sb')
         = filter isNT (coll sb)
           @ map (\<lambda>(r, w, h). \<lparr>range' = r, word = w, hypos = h\<rparr>)
               (filter (\<lambda>(r, w, h). isNonTerminal w) adds)"
    unfolding m by (simp add: c filter_isNT_added)
qed


text \<open>
  C10. Start from a \<^verbatim>\<open>SymbolBind\<close> whose counter agrees with its vector (the empty one, with
  \<^verbatim>\<open>numNT = 0\<close>, does). After any sequence of \<^verbatim>\<open>Add\<close> calls that passes the assertions,
  \<^verbatim>\<open>coll\<close> is the vector it was followed by the elements of the calls, one for each call and
  in the order of the calls; \<^verbatim>\<open>numNT\<close> has been incremented once for every call with a
  non-terminal word and is the number of non-terminal elements of \<^verbatim>\<open>coll\<close> (as a
  \<^verbatim>\<open>size_t\<close>, and as a number whenever \<^verbatim>\<open>coll\<close> has fewer than \<open>2^64\<close> elements, which every
  \<^verbatim>\<open>std::vector\<close> has); \<^verbatim>\<open>GetNTElements\<close> returns the slots of exactly the non-terminal
  elements, in increasing position: these are the non-terminal elements that were there,
  followed by the elements of the calls with a non-terminal word in the order of the calls;
  and the size of its result equals \<^verbatim>\<open>numNT\<close>.
\<close>

theorem numNT_counts_nonterminals:
  "numNT sb = of_nat (length (filter isNT (coll sb))) \<and> Add_all sb adds = Inr sb' \<longrightarrow>
     numNT sb' = of_nat (length (filter isNT (coll sb')))
     \<and> (length (coll sb') < 2 ^ 64 \<longrightarrow> unat (numNT sb') = length (filter isNT (coll sb')))
     \<and> GetNTElements sb' = filter (\<lambda>j. isNT (coll sb' ! j)) [0..<length (coll sb')]
     \<and> map (\<lambda>j. coll sb' ! j) (GetNTElements sb') = filter isNT (coll sb')
     \<and> sorted_wrt (<) (GetNTElements sb')
     \<and> of_nat (length (GetNTElements sb')) = numNT sb'
     \<and> coll sb' = coll sb @ map (\<lambda>(r, w, h). \<lparr>range' = r, word = w, hypos = h\<rparr>) adds
     \<and> numNT sb' = numNT sb + of_nat (length (filter (\<lambda>(r, w, h). isNonTerminal w) adds))
     \<and> map (\<lambda>j. coll sb' ! j) (GetNTElements sb')
         = filter isNT (coll sb)
           @ map (\<lambda>(r, w, h). \<lparr>range' = r, word = w, hypos = h\<rparr>)
               (filter (\<lambda>(r, w, h). isNonTerminal w) adds)"
  using numNT_parts[of sb adds sb'] by blast

theorem numNT_counts_nonterminals_witness:
  "numNT \<lparr>coll = [], numNT = 0\<rparr> = of_nat (length (filter isNT (coll \<lparr>coll = [], numNT = 0\<rparr>)))
   \<and> Add_all \<lparr>coll = [], numNT = 0\<rparr>
        [(7, \<lparr>isNonTerminal = True\<rparr>, Some 3), (8, \<lparr>isNonTerminal = False\<rparr>, None),
         (9, \<lparr>isNonTerminal = True\<rparr>, Some 4)]
      = Inr \<lparr>coll = [\<lparr>range' = 7, word = \<lparr>isNonTerminal = True\<rparr>, hypos = Some 3\<rparr>,
                      \<lparr>range' = 8, word = \<lparr>isNonTerminal = False\<rparr>, hypos = None\<rparr>,
                      \<lparr>range' = 9, word = \<lparr>isNonTerminal = True\<rparr>, hypos = Some 4\<rparr>],
              numNT = 2\<rparr>
   \<and> unat (2 :: 64 word) = 2
   \<and> GetNTElements \<lparr>coll = [\<lparr>range' = 7, word = \<lparr>isNonTerminal = True\<rparr>, hypos = Some 3\<rparr>,
                      \<lparr>range' = 8, word = \<lparr>isNonTerminal = False\<rparr>, hypos = None\<rparr>,
                      \<lparr>range' = 9, word = \<lparr>isNonTerminal = True\<rparr>, hypos = Some 4\<rparr>],
              numNT = 2\<rparr> = [0, 2]
   \<and> map (\<lambda>j. coll \<lparr>coll = [\<lparr>range' = 7, word = \<lparr>isNonTerminal = True\<rparr>, hypos = Some 3\<rparr>,
                      \<lparr>range' = 8, word = \<lparr>isNonTerminal = False\<rparr>, hypos = None\<rparr>,
                      \<lparr>range' = 9, word = \<lparr>isNonTerminal = True\<rparr>, hypos = Some 4\<rparr>],
              numNT = 2\<rparr> ! j) [0, 2]
     = [\<lparr>range' = 7, word = \<lparr>isNonTerminal = True\<rparr>, hypos = Some 3\<rparr>,
        \<lparr>range' = 9, word = \<lparr>isNonTerminal = True\<rparr>, hypos = Some 4\<rparr>]"
  using numNT_counts_nonterminals
    [of "\<lparr>coll = [], numNT = 0\<rparr>"
        "[(7, \<lparr>isNonTerminal = True\<rparr>, Some 3), (8, \<lparr>isNonTerminal = False\<rparr>, None),
          (9, \<lparr>isNonTerminal = True\<rparr>, Some 4)]"
        "\<lparr>coll = [\<lparr>range' = 7, word = \<lparr>isNonTerminal = True\<rparr>, hypos = Some 3\<rparr>,
                  \<lparr>range' = 8, word = \<lparr>isNonTerminal = False\<rparr>, hypos = None\<rparr>,
                  \<lparr>range' = 9, word = \<lparr>isNonTerminal = True\<rparr>, hypos = Some 4\<rparr>],
          numNT = 2\<rparr>"]
  by (simp add: SymbolBindElement_ctor_def Add_def upt_conv_Cons)

section \<open>The binary heap of the candidate queue\<close>

lemma parent_less: "0 < i \<Longrightarrow> (i - 1) div 2 < (i::nat)"
  by arith

lemma mset_swap_update:
  "i < length xs \<Longrightarrow> j < length xs \<Longrightarrow> i \<noteq> j \<Longrightarrow>
   mset (xs[i := xs ! j, j := v]) = mset (xs[i := v])"
  by (simp add: mset_update nth_list_update)

lemma take_update_lt: "i < n \<Longrightarrow> take n (xs[i := v]) = (take n xs)[i := v]"
  by (simp add: take_update_swap)

lemma push_heap_loop_length [simp]:
  "length (push_heap_loop cmp first hole tp v) = length first"
proof (induction cmp first hole tp v rule: push_heap_loop.induct)
  case (1 cmp first holeIndex topIndex val)
  show ?case
    using "1.IH"[OF refl]
    by (subst push_heap_loop.simps) (simp add: Let_def)
qed

lemma push_heap_loop_frame:
  "hole < n \<Longrightarrow> n \<le> j \<Longrightarrow> push_heap_loop cmp first hole tp v ! j = first ! j"
proof (induction cmp first hole tp v rule: push_heap_loop.induct)
  case (1 cmp first holeIndex topIndex val)
  show ?case
  proof (cases "holeIndex > topIndex \<and> cmp (first ! ((holeIndex - 1) div 2)) val")
    case True
    have "(holeIndex - 1) div 2 < n" using "1.prems"(1) True parent_less[of holeIndex] by simp
    from "1.IH"[OF refl True this "1.prems"(2)] True "1.prems"
    show ?thesis by (subst push_heap_loop.simps) (simp add: Let_def)
  next
    case False
    then show ?thesis using "1.prems" by (subst push_heap_loop.simps) (auto simp add: Let_def)
  qed
qed

lemma push_heap_loop_heap:
  "hole < n \<Longrightarrow> n \<le> length first \<Longrightarrow> sift_inv f n hole (first[hole := v]) \<Longrightarrow>
   heap_upto f n (push_heap_loop (\<lambda>a b. f a < f b) first hole 0 v) \<and>
   mset (take n (push_heap_loop (\<lambda>a b. f a < f b) first hole 0 v)) = mset (take n (first[hole := v]))"
proof (induction "\<lambda>a b. f a < f b" first hole "0::nat" v rule: push_heap_loop.induct)
  case (1 first hole v)
  let ?p = "(hole - 1) div 2"
  let ?A = "first[hole := v]"
  show ?case
  proof (cases "hole > 0 \<and> f (first ! ?p) < f v")
    case True
    note up = True
    then have ph: "?p < hole" using parent_less[of hole] by simp
    let ?first' = "first[hole := first ! ?p]"
    let ?A' = "?first'[?p := v]"
    have pn: "?p < n" using ph "1.prems"(1) by simp
    have len: "n \<le> length ?first'" using "1.prems"(2) by simp
    have A': "\<And>i. i < length first \<Longrightarrow> ?A' ! i = (if i = ?p then v else if i = hole then first ! ?p else first ! i)"
      using ph by (auto simp: nth_list_update)
    have A: "\<And>i. i < length first \<Longrightarrow> ?A ! i = (if i = hole then v else first ! i)"
      by (auto simp: nth_list_update)
    have inv: "sift_inv f n ?p ?A'"
      unfolding sift_inv_def
    proof (intro conjI allI impI)
      fix i assume i: "0 < i \<and> i < n \<and> i \<noteq> ?p"
      then have il: "i < length first" "(i - 1) div 2 < length first" using "1.prems"(2) by arith+
      show "f (?A' ! i) \<le> f (?A' ! ((i - 1) div 2))"
      proof (cases "i = hole")
        case True
        then show ?thesis using il A' up ph by (simp add: A')
      next
        case False
        note ih = False
        show ?thesis
        proof (cases "(i - 1) div 2 = hole")
          case True
          from "1.prems"(3) i True up
          have "f (?A ! i) \<le> f (?A ! ?p)" unfolding sift_inv_def by blast
          then show ?thesis using il i ih True ph A A' "1.prems" by (simp add: A A')
        next
          case False
          from "1.prems"(3) i ih have "f (?A ! i) \<le> f (?A ! ((i - 1) div 2))"
            unfolding sift_inv_def by blast
          then show ?thesis using il i ih False A A'
            using up
            by (auto simp add: A A' split: if_splits)
        qed
      qed
    next
      fix i assume i: "0 < i \<and> i < n \<and> (i - 1) div 2 = ?p \<and> 0 < ?p"
      then have il: "i < length first" "(i - 1) div 2 < length first" "(?p - 1) div 2 < length first"
        using "1.prems"(2) pn by arith+
      have pp: "(?p - 1) div 2 < ?p" using i parent_less[of ?p] by simp
      have ine: "i \<noteq> ?p" using i parent_less[of i] by auto
      from "1.prems"(3) have pstep: "f (?A ! ?p) \<le> f (?A ! ((?p - 1) div 2))"
        unfolding sift_inv_def using i pn ph by (metis nat_neq_iff)
      show "f (?A' ! i) \<le> f (?A' ! ((?p - 1) div 2))"
      proof (cases "i = hole")
        case True
        then show ?thesis using pstep il pp ph A A' by (simp add: A A')
      next
        case False
        from "1.prems"(3) i False have "f (?A ! i) \<le> f (?A ! ?p)"
          unfolding sift_inv_def by metis
        with pstep have "f (?A ! i) \<le> f (?A ! ((?p - 1) div 2))" by simp
        then show ?thesis using il pp ph False ine A A' by (simp add: A A')
      qed
    qed
    have ms: "mset (take n ?A') = mset (take n ?A)"
    proof -
      have "take n ?A' = (take n first)[hole := (take n first) ! ?p, ?p := v]"
        using pn "1.prems" by (simp add: take_update_swap)
      moreover have "take n ?A = (take n first)[hole := v]"
        using "1.prems" by (simp add: take_update_swap)
      ultimately show ?thesis
        using mset_swap_update[of hole "take n first" ?p v] ph pn "1.prems" by simp
    qed
    from "1.hyps"[OF refl True pn len inv] ms True
    show ?thesis by (subst (1 2) push_heap_loop.simps) (simp add: Let_def)
  next
    case False
    have "heap_upto f n ?A"
      unfolding heap_upto_def
    proof (intro allI impI)
      fix i assume i: "0 < i \<and> i < n"
      show "f (?A ! i) \<le> f (?A ! ((i - 1) div 2))"
      proof (cases "i = hole")
        case True
        then have h0: "hole > 0" using i by simp
        with False have "f v \<le> f (first ! ?p)" by simp
        moreover have "?p < hole" using h0 parent_less[of hole] by simp
        ultimately show ?thesis using True "1.prems" by simp
      next
        case False
        then show ?thesis using "1.prems"(3) i unfolding sift_inv_def by blast
      qed
    qed
    then show ?thesis using False by (subst (1 2) push_heap_loop.simps) (auto simp add: Let_def)
  qed
qed


lemma adjust_heap_loop_props:
  "heap_upto f n first \<Longrightarrow> hole < n \<Longrightarrow> n \<le> length first \<Longrightarrow>
   adjust_heap_loop (\<lambda>a b. f a < f b) first hole n = (r, h') \<Longrightarrow>
   heap_upto f n r \<and> h' < n \<and> \<not> h' < (n - 1) div 2 \<and> length r = length first \<and>
   (\<forall>v. mset (take n (r[h' := v])) = mset (take n (first[hole := v])))"
proof (induction "\<lambda>a b. f a < f b" first hole n arbitrary: r h' rule: adjust_heap_loop.induct)
  case (1 first hole n)
  show ?case
  proof (cases "hole < (n - 1) div 2")
    case False
    with "1.prems" show ?thesis
      by (subst (asm) adjust_heap_loop.simps) auto
  next
    case True
    let ?l = "2 * (hole + 1) - 1"
    let ?r = "2 * (hole + 1)"
    define c where "c = (if f (first ! ?r) < f (first ! ?l) then ?l else ?r)"
    let ?first' = "first[hole := first ! c]"
    have rn: "?r < n" using True by arith
    have cn: "c < n" and chole: "c \<noteq> hole" and cpar: "(c - 1) div 2 = hole" and c0: "0 < c"
      using rn by (auto simp: c_def)
    have cmax: "f (first ! ?l) \<le> f (first ! c)" "f (first ! ?r) \<le> f (first ! c)"
      by (auto simp: c_def)
    have rec: "adjust_heap_loop (\<lambda>a b. f a < f b) ?first' c n = (r, h')"
      using "1.prems"(4) True
      by (subst (asm) adjust_heap_loop.simps) (auto simp add: Let_def c_def split: if_splits)
    have hp: "\<And>i. 0 < i \<Longrightarrow> i < n \<Longrightarrow> f (first ! i) \<le> f (first ! ((i - 1) div 2))"
      using "1.prems"(1) unfolding heap_upto_def by blast
    have heap': "heap_upto f n ?first'"
      unfolding heap_upto_def
    proof (intro allI impI)
      fix i assume i: "0 < i \<and> i < n"
      then have il: "i < length first" "(i - 1) div 2 < length first"
        using "1.prems"(3) by arith+
      show "f (?first' ! i) \<le> f (?first' ! ((i - 1) div 2))"
      proof (cases "i = hole")
        case True
        then have "(i - 1) div 2 \<noteq> hole" using i parent_less[of i] by simp
        moreover have "f (first ! c) \<le> f (first ! hole)" using hp[OF c0 cn] cpar by simp
        moreover have "f (first ! hole) \<le> f (first ! ((hole - 1) div 2))"
          using hp[of hole] i True by simp
        ultimately show ?thesis using True il by simp
      next
        case False
        note ih = False
        show ?thesis
        proof (cases "(i - 1) div 2 = hole")
          case True
          then have "i = ?l \<or> i = ?r" using i by arith
          then have "f (first ! i) \<le> f (first ! c)" using cmax by auto
          then show ?thesis using True ih il "1.prems" by simp
        next
          case False
          then show ?thesis using ih hp[of i] i il by simp
        qed
      qed
    qed
    have len': "n \<le> length ?first'" using "1.prems"(3) by simp
    have ms: "\<And>v. mset (take n (?first'[c := v])) = mset (take n (first[hole := v]))"
    proof -
      fix v
      have "take n (?first'[c := v]) = (take n first)[hole := (take n first) ! c, c := v]"
        using cn "1.prems" by (simp add: take_update_swap)
      moreover have "take n (first[hole := v]) = (take n first)[hole := v]"
        using "1.prems" by (simp add: take_update_swap)
      ultimately show "mset (take n (?first'[c := v])) = mset (take n (first[hole := v]))"
        using mset_swap_update[of hole "take n first" c v] cn chole "1.prems" by simp
    qed
    have "heap_upto f n r \<and> h' < n \<and> \<not> h' < (n - 1) div 2 \<and> length r = length ?first' \<and>
          (\<forall>v. mset (take n (r[h' := v])) = mset (take n (?first'[c := v])))"
      using "1.hyps"[OF True refl _ heap' cn len' rec] by (simp add: c_def)
    then show ?thesis using ms by simp
  qed
qed


lemma adjust_heap_props:
  assumes hp: "heap_upto f n first" and n0: "0 < n" and nl: "n \<le> length first"
  shows "heap_upto f n (adjust_heap (\<lambda>a b. f a < f b) first 0 n v) \<and>
         length (adjust_heap (\<lambda>a b. f a < f b) first 0 n v) = length first \<and>
         mset (take n (adjust_heap (\<lambda>a b. f a < f b) first 0 n v)) = mset (take n (first[0 := v]))"
proof -
  obtain r h' where loop: "adjust_heap_loop (\<lambda>a b. f a < f b) first 0 n = (r, h')"
    by (cases "adjust_heap_loop (\<lambda>a b. f a < f b) first 0 n") auto
  from adjust_heap_loop_props[OF hp n0 nl loop]
  have rh: "heap_upto f n r" and hn: "h' < n" and leafish: "\<not> h' < (n - 1) div 2"
    and lr: "length r = length first"
    and ms: "\<And>v. mset (take n (r[h' := v])) = mset (take n (first[0 := v]))"
    by auto
  have hpr: "\<And>i. 0 < i \<Longrightarrow> i < n \<Longrightarrow> f (r ! i) \<le> f (r ! ((i - 1) div 2))"
    using rh unfolding heap_upto_def by blast
  define special where "special = (n mod 2 = 0 \<and> h' = (n - 2) div 2)"
  define r2 where "r2 = (if special then r[h' := r ! (2 * (h' + 1) - 1)] else r)"
  define h2 where "h2 = (if special then 2 * (h' + 1) - 1 else h')"
  have unfold: "adjust_heap (\<lambda>a b. f a < f b) first 0 n v = push_heap_loop (\<lambda>a b. f a < f b) r2 h2 0 v"
    by (simp add: adjust_heap_def loop Let_def r2_def h2_def special_def)
  have h2n: "h2 < n" using hn n0 by (auto simp: h2_def special_def) arith
  have leaf: "\<And>i. 0 < i \<Longrightarrow> i < n \<Longrightarrow> (i - 1) div 2 \<noteq> h2"
  proof -
    fix i assume "0 < i" "i < n"
    then show "(i - 1) div 2 \<noteq> h2"
      using leafish hn by (auto simp: h2_def special_def) arith+
  qed
  have lr2: "length r2 = length first" by (simp add: r2_def lr)
  have heap2: "heap_upto f n r2"
  proof (cases special)
    case False
    then show ?thesis using rh by (simp add: r2_def)
  next
    case True
    note sp = True
    then have c: "2 * (h' + 1) - 1 = n - 1" and n2: "2 \<le> n" and hc: "h' \<noteq> n - 1"
      using hn by (auto simp: special_def) arith+
    have r2: "r2 = r[h' := r ! (n - 1)]" using True c by (simp add: r2_def)
    show ?thesis
      unfolding heap_upto_def
    proof (intro allI impI)
      fix i assume i: "0 < i \<and> i < n"
      then have il: "i < length r" "(i - 1) div 2 < length r" using nl lr by arith+
      show "f (r2 ! i) \<le> f (r2 ! ((i - 1) div 2))"
      proof (cases "i = h'")
        case True
        then have "(i - 1) div 2 \<noteq> h'" using i parent_less[of i] by simp
        moreover have "(n - 1 - 1) div 2 = h'" using sp n2 by (auto simp: special_def)
        then have "f (r ! (n - 1)) \<le> f (r ! h')"
          using hpr[of "n - 1"] n2 by simp
        moreover have "f (r ! h') \<le> f (r ! ((h' - 1) div 2))" using hpr[of h'] i True by simp
        ultimately show ?thesis using True il by (simp add: r2)
      next
        case False
        note ih = False
        show ?thesis
        proof (cases "(i - 1) div 2 = h'")
          case True
          then have "i = n - 1" using i sp by (auto simp: special_def) arith
          then show ?thesis using True ih il by (simp add: r2)
        next
          case False
          then show ?thesis using ih hpr[of i] i il by (simp add: r2)
        qed
      qed
    qed
  qed
  have ms2: "mset (take n (r2[h2 := v])) = mset (take n (first[0 := v]))"
  proof (cases special)
    case False
    then show ?thesis using ms by (simp add: r2_def h2_def)
  next
    case True
    then have c: "2 * (h' + 1) - 1 = n - 1" and n2: "2 \<le> n" and hc: "h' \<noteq> n - 1"
      using hn by (auto simp: special_def) arith+
    have "take n (r2[h2 := v]) = (take n r)[h' := (take n r) ! (n - 1), n - 1 := v]"
      using True c hn n2 by (simp add: r2_def h2_def take_update_swap)
    moreover have "take n (r[h' := v]) = (take n r)[h' := v]"
      using hn by (simp add: take_update_swap)
    ultimately show ?thesis
      using mset_swap_update[of h' "take n r" "n - 1" v] hn hc n2 nl lr ms[of v] by simp
  qed
  have sift: "sift_inv f n h2 (r2[h2 := v])"
    unfolding sift_inv_def
  proof (intro conjI allI impI)
    fix i assume i: "0 < i \<and> i < n \<and> i \<noteq> h2"
    then have "(i - 1) div 2 \<noteq> h2" using leaf by simp
    moreover have "f (r2 ! i) \<le> f (r2 ! ((i - 1) div 2))"
      using heap2 i unfolding heap_upto_def by blast
    ultimately show "f (r2[h2 := v] ! i) \<le> f (r2[h2 := v] ! ((i - 1) div 2))"
      using i by simp
  next
    fix i assume "0 < i \<and> i < n \<and> (i - 1) div 2 = h2 \<and> 0 < h2"
    then show "f (r2[h2 := v] ! i) \<le> f (r2[h2 := v] ! ((h2 - 1) div 2))"
      using leaf by blast
  qed
  have nl2: "n \<le> length r2" using nl lr2 by simp
  from push_heap_loop_heap[OF h2n nl2 sift] ms2 lr2
  show ?thesis by (simp add: unfold)
qed

lemma is_heap_Nil [simp]: "is_heap f []"
  by (simp add: is_heap_def heap_upto_def)

lemma heap_top_max:
  assumes "is_heap f xs" and "i < length xs"
  shows "f (xs ! i) \<le> f (xs ! 0)"
  using assms(2)
proof (induction i rule: less_induct)
  case (less i)
  show ?case
  proof (cases "i = 0")
    case True
    then show ?thesis by simp
  next
    case False
    then have p: "(i - 1) div 2 < i" using parent_less[of i] by simp
    have "f (xs ! i) \<le> f (xs ! ((i - 1) div 2))"
      using assms(1) False less.prems unfolding is_heap_def heap_upto_def by simp
    also have "\<dots> \<le> f (xs ! 0)" using less.IH[OF p] p less.prems by simp
    finally show ?thesis .
  qed
qed

lemma pq_top_max:
  "is_heap f c \<Longrightarrow> x \<in> set c \<Longrightarrow> f x \<le> f (pq_top c)"
  using heap_top_max[of f c] by (auto simp: in_set_conv_nth pq_top_def)

lemma pq_top_in: "c \<noteq> [] \<Longrightarrow> pq_top c \<in> set c"
  by (simp add: pq_top_def)

lemma heap_upto_take: "n \<le> length xs \<Longrightarrow> heap_upto f n (take n xs) = heap_upto f n xs"
  unfolding heap_upto_def
  using parent_less by (auto simp: less_trans[OF parent_less])

lemma pq_push_props:
  assumes "is_heap f c"
  shows "is_heap f (pq_push (\<lambda>a b. f a < f b) c x) \<and>
         mset (pq_push (\<lambda>a b. f a < f b) c x) = add_mset x (mset c)"
proof -
  let ?c = "c @ [x]"
  let ?n = "length ?c"
  have sift: "sift_inv f ?n (length c) (?c[length c := x])"
    unfolding sift_inv_def
  proof (intro conjI allI impI)
    fix i assume i: "0 < i \<and> i < ?n \<and> i \<noteq> length c"
    then have il: "i < length c" by simp
    then have "(i - 1) div 2 < length c" using parent_less[of i] i by simp
    then show "f (?c[length c := x] ! i) \<le> f (?c[length c := x] ! ((i - 1) div 2))"
      using assms il i unfolding is_heap_def heap_upto_def by (simp add: nth_append)
  next
    fix i assume i: "0 < i \<and> i < ?n \<and> (i - 1) div 2 = length c \<and> 0 < length c"
    then have False by simp arith
    then show "f (?c[length c := x] ! i) \<le> f (?c[length c := x] ! ((length c - 1) div 2))" ..
  qed
  have "heap_upto f ?n (push_heap_loop (\<lambda>a b. f a < f b) ?c (length c) 0 x) \<and>
        mset (take ?n (push_heap_loop (\<lambda>a b. f a < f b) ?c (length c) 0 x)) = mset (take ?n (?c[length c := x]))"
    by (rule push_heap_loop_heap[OF _ _ sift]) simp_all
  then show ?thesis
    by (simp add: pq_push_def is_heap_def Let_def)
qed

lemma pq_pop_props:
  assumes "is_heap f c" and "c \<noteq> []"
  shows "is_heap f (pq_pop (\<lambda>a b. f a < f b) c) \<and>
         add_mset (pq_top c) (mset (pq_pop (\<lambda>a b. f a < f b) c)) = mset c"
proof (cases "length c > 1")
  case False
  with assms(2) have "length c = 1" by (cases c) auto
  then obtain a where "c = [a]" by (cases c) auto
  then show ?thesis by (simp add: pq_pop_def pq_top_def)
next
  case True
  define n where "n = length c - 1"
  define c1 where "c1 = c[n := c ! 0]"
  define r where "r = adjust_heap (\<lambda>a b. f a < f b) c1 0 n (c ! n)"
  have n0: "0 < n" and nl: "n \<le> length c1" and nlc: "n < length c" using True by (auto simp: n_def c1_def)
  have hp: "heap_upto f n c1"
    using assms(1) nlc unfolding is_heap_def heap_upto_def c1_def
    by (auto simp: less_trans[OF parent_less])
  from adjust_heap_props[OF hp n0 nl, of "c ! n"]
  have rh: "heap_upto f n r" and rl: "length r = length c"
    and rm: "mset (take n r) = mset (take n (c1[0 := c ! n]))"
    by (auto simp: r_def c1_def)
  have pop: "pq_pop (\<lambda>a b. f a < f b) c = take n r"
    using True rl by (simp add: pq_pop_def Let_def r_def c1_def n_def butlast_conv_take)
  have "is_heap f (take n r)"
    using rh rl nlc by (simp add: is_heap_def heap_upto_take)
  moreover have "add_mset (c ! 0) (mset (take n r)) = mset c"
  proof -
    have "take n (c1[0 := c ! n]) = (take n c)[0 := c ! n]"
      using n0 nlc by (simp add: c1_def take_update_swap list_update_beyond)
    then have "mset (take n r) = mset (take n c) - {#c ! 0#} + {#c ! n#}"
      using rm n0 nlc by (simp add: mset_update)
    moreover have "mset c = mset (take n c) + {#c ! n#}"
    proof -
      have "c = take n c @ [c ! n]"
        using nlc by (simp add: n_def take_Suc_conv_app_nth[symmetric])
      then show ?thesis by (metis mset_append mset.simps(2) mset.simps(1) add_mset_add_single)
    qed
    moreover have "c ! 0 \<in># mset (take n c)"
    proof -
      have "take n c ! 0 = c ! 0" using n0 by simp
      moreover have "0 < length (take n c)" using n0 nlc by simp
      ultimately show ?thesis by (metis nth_mem set_mset_mset)
    qed
    ultimately show ?thesis by simp
  qed
  ultimately show ?thesis by (simp add: pop pq_top_def)
qed

subsection \<open>Push and pop under any comparison\<close>

text \<open>
  Whatever the comparison answers, \<^verbatim>\<open>push\<close> adds its argument and \<^verbatim>\<open>pop\<close> removes the
  element at the top, and nothing else changes in what the queue holds. Two comparisons that
  agree on the elements involved give the same queue.
\<close>

lemma push_heap_loop_mset:
  "hole < n \<Longrightarrow> n \<le> length first \<Longrightarrow>
   mset (take n (push_heap_loop cmp first hole tp v)) = mset (take n (first[hole := v]))"
proof (induction cmp first hole tp v rule: push_heap_loop.induct)
  case (1 cmp first hole tp v)
  let ?p = "(hole - 1) div 2"
  show ?case
  proof (cases "hole > tp \<and> cmp (first ! ?p) v")
    case False
    then show ?thesis by (subst push_heap_loop.simps) (auto simp add: Let_def)
  next
    case True
    then have ph: "?p < hole" using parent_less[of hole] by simp
    have pn: "?p < n" using ph "1.prems"(1) by simp
    let ?first' = "first[hole := first ! ?p]"
    have len: "n \<le> length ?first'" using "1.prems"(2) by simp
    have "take n (?first'[?p := v]) = (take n first)[hole := (take n first) ! ?p, ?p := v]"
      using pn "1.prems" by (simp add: take_update_swap)
    moreover have "take n (first[hole := v]) = (take n first)[hole := v]"
      using "1.prems" by (simp add: take_update_swap)
    ultimately have ms: "mset (take n (?first'[?p := v])) = mset (take n (first[hole := v]))"
      using mset_swap_update[of hole "take n first" ?p v] ph pn "1.prems" by simp
    from "1.IH"[OF refl True pn len] ms True
    show ?thesis by (subst push_heap_loop.simps) (simp add: Let_def)
  qed
qed

lemma adjust_heap_loop_mset:
  "hole < n \<Longrightarrow> n \<le> length first \<Longrightarrow> adjust_heap_loop cmp first hole n = (r, h') \<Longrightarrow>
   h' < n \<and> \<not> h' < (n - 1) div 2 \<and> length r = length first \<and> set r \<subseteq> set first \<and>
   (\<forall>v. mset (take n (r[h' := v])) = mset (take n (first[hole := v])))"
proof (induction cmp first hole n arbitrary: r h' rule: adjust_heap_loop.induct)
  case (1 cmp first hole n)
  show ?case
  proof (cases "hole < (n - 1) div 2")
    case False
    with "1.prems" show ?thesis
      by (subst (asm) adjust_heap_loop.simps) auto
  next
    case True
    let ?l = "2 * (hole + 1) - 1"
    let ?r = "2 * (hole + 1)"
    define c where "c = (if cmp (first ! ?r) (first ! ?l) then ?l else ?r)"
    let ?first' = "first[hole := first ! c]"
    have rn: "?r < n" using True by arith
    have cn: "c < n" and chole: "c \<noteq> hole"
      using rn by (auto simp: c_def)
    have rec: "adjust_heap_loop cmp ?first' c n = (r, h')"
      using "1.prems"(3) True
      by (subst (asm) adjust_heap_loop.simps) (auto simp add: Let_def c_def split: if_splits)
    have len': "n \<le> length ?first'" using "1.prems"(2) by simp
    have cl: "c < length first" using cn "1.prems"(2) by simp
    have sub: "set ?first' \<subseteq> set first"
      using set_update_subset_insert[of first hole "first ! c"] nth_mem[OF cl] by auto
    have ms: "mset (take n (?first'[c := v])) = mset (take n (first[hole := v]))" for v
    proof -
      have "take n (?first'[c := v]) = (take n first)[hole := (take n first) ! c, c := v]"
        using cn "1.prems" by (simp add: take_update_swap)
      moreover have "take n (first[hole := v]) = (take n first)[hole := v]"
        using "1.prems" by (simp add: take_update_swap)
      ultimately show ?thesis
        using mset_swap_update[of hole "take n first" c v] cn chole "1.prems" by simp
    qed
    have "h' < n \<and> \<not> h' < (n - 1) div 2 \<and> length r = length ?first' \<and> set r \<subseteq> set ?first' \<and>
          (\<forall>v. mset (take n (r[h' := v])) = mset (take n (?first'[c := v])))"
      using "1.IH"[OF True refl _ cn len' rec] by (simp add: c_def)
    then show ?thesis using ms sub by auto
  qed
qed

lemma adjust_heap_mset:
  assumes n0: "0 < n" and nl: "n \<le> length first"
  shows "length (adjust_heap cmp first 0 n v) = length first \<and>
         mset (take n (adjust_heap cmp first 0 n v)) = mset (take n (first[0 := v]))"
proof -
  obtain r h' where loop: "adjust_heap_loop cmp first 0 n = (r, h')"
    by (cases "adjust_heap_loop cmp first 0 n") auto
  from adjust_heap_loop_mset[OF n0 nl loop]
  have hn: "h' < n" and lr: "length r = length first"
    and ms: "\<And>v. mset (take n (r[h' := v])) = mset (take n (first[0 := v]))"
    by auto
  define special where "special = (n mod 2 = 0 \<and> h' = (n - 2) div 2)"
  define r2 where "r2 = (if special then r[h' := r ! (2 * (h' + 1) - 1)] else r)"
  define h2 where "h2 = (if special then 2 * (h' + 1) - 1 else h')"
  have unfold: "adjust_heap cmp first 0 n v = push_heap_loop cmp r2 h2 0 v"
    by (simp add: adjust_heap_def loop Let_def r2_def h2_def special_def)
  have h2n: "h2 < n" using hn n0 by (auto simp: h2_def special_def) arith
  have lr2: "length r2 = length first" by (simp add: r2_def lr)
  have ms2: "mset (take n (r2[h2 := v])) = mset (take n (first[0 := v]))"
  proof (cases special)
    case False
    then show ?thesis using ms by (simp add: r2_def h2_def)
  next
    case True
    then have c: "2 * (h' + 1) - 1 = n - 1" and n2: "2 \<le> n" and hc: "h' \<noteq> n - 1"
      using hn by (auto simp: special_def) arith+
    have "take n (r2[h2 := v]) = (take n r)[h' := (take n r) ! (n - 1), n - 1 := v]"
      using True c hn n2 by (simp add: r2_def h2_def take_update_swap)
    moreover have "take n (r[h' := v]) = (take n r)[h' := v]"
      using hn by (simp add: take_update_swap)
    ultimately show ?thesis
      using mset_swap_update[of h' "take n r" "n - 1" v] hn hc n2 nl lr ms[of v] by simp
  qed
  have nl2: "n \<le> length r2" using nl lr2 by simp
  from push_heap_loop_mset[OF h2n nl2, of cmp 0 v] ms2 lr2
  show ?thesis by (simp add: unfold)
qed

lemma pq_push_mset: "mset (pq_push cmp c x) = add_mset x (mset c)"
proof -
  have "mset (take (length (c @ [x])) (push_heap_loop cmp (c @ [x]) (length c) 0 x))
        = mset (take (length (c @ [x])) ((c @ [x])[length c := x]))"
    by (rule push_heap_loop_mset) simp_all
  then show ?thesis by (simp add: pq_push_def Let_def)
qed

lemma pq_pop_mset:
  assumes "c \<noteq> []"
  shows "add_mset (pq_top c) (mset (pq_pop cmp c)) = mset c"
proof (cases "length c > 1")
  case False
  with assms have "length c = 1" by (cases c) auto
  then obtain a where "c = [a]" by (cases c) auto
  then show ?thesis by (simp add: pq_pop_def pq_top_def)
next
  case True
  define n where "n = length c - 1"
  define c1 where "c1 = c[n := c ! 0]"
  define r where "r = adjust_heap cmp c1 0 n (c ! n)"
  have n0: "0 < n" and nl: "n \<le> length c1" and nlc: "n < length c"
    using True by (auto simp: n_def c1_def)
  from adjust_heap_mset[OF n0 nl, of cmp "c ! n"]
  have rl: "length r = length c"
    and rm: "mset (take n r) = mset (take n (c1[0 := c ! n]))"
    by (auto simp: r_def c1_def)
  have pop: "pq_pop cmp c = take n r"
    using True rl by (simp add: pq_pop_def Let_def r_def c1_def n_def butlast_conv_take)
  have "take n (c1[0 := c ! n]) = (take n c)[0 := c ! n]"
    using n0 nlc by (simp add: c1_def take_update_swap list_update_beyond)
  then have "mset (take n r) = mset (take n c) - {#c ! 0#} + {#c ! n#}"
    using rm n0 nlc by (simp add: mset_update)
  moreover have "mset c = mset (take n c) + {#c ! n#}"
  proof -
    have "c = take n c @ [c ! n]"
      using nlc by (simp add: n_def take_Suc_conv_app_nth[symmetric])
    then show ?thesis by (metis mset_append mset.simps(2) mset.simps(1) add_mset_add_single)
  qed
  moreover have "c ! 0 \<in># mset (take n c)"
  proof -
    have "take n c ! 0 = c ! 0" using n0 by simp
    moreover have "0 < length (take n c)" using n0 nlc by simp
    ultimately show ?thesis by (metis nth_mem set_mset_mset)
  qed
  ultimately show ?thesis by (simp add: pop pq_top_def)
qed

lemma push_heap_loop_cong:
  "\<forall>a \<in> insert v (set first). \<forall>b \<in> insert v (set first). cmp a b = cmp' a b \<Longrightarrow>
   hole < length first \<Longrightarrow>
   push_heap_loop cmp first hole tp v = push_heap_loop cmp' first hole tp v"
proof (induction cmp first hole tp v rule: push_heap_loop.induct)
  case (1 cmp first hole tp v)
  let ?p = "(hole - 1) div 2"
  have pl: "?p < length first" using "1.prems"(2) by arith
  have pin: "first ! ?p \<in> set first" using pl by simp
  have eq: "cmp (first ! ?p) v = cmp' (first ! ?p) v" using "1.prems"(1) pin by simp
  show ?case
  proof (cases "hole > tp \<and> cmp (first ! ?p) v")
    case False
    then show ?thesis using eq
      by (subst push_heap_loop.simps, subst (2) push_heap_loop.simps) (auto simp add: Let_def)
  next
    case True
    let ?first' = "first[hole := first ! ?p]"
    have sub: "set ?first' \<subseteq> set first"
      using set_update_subset_insert[of first hole "first ! ?p"] pin by auto
    have ag: "\<forall>a \<in> insert v (set ?first'). \<forall>b \<in> insert v (set ?first'). cmp a b = cmp' a b"
      using "1.prems"(1) sub by blast
    have pl': "?p < length ?first'" using pl by simp
    from "1.IH"[OF refl True ag pl'] True eq
    show ?thesis
      by (subst push_heap_loop.simps, subst (2) push_heap_loop.simps) (simp add: Let_def)
  qed
qed

lemma adjust_heap_loop_cong:
  "\<forall>a \<in> set first. \<forall>b \<in> set first. cmp a b = cmp' a b \<Longrightarrow> n \<le> length first \<Longrightarrow>
   adjust_heap_loop cmp first hole n = adjust_heap_loop cmp' first hole n"
proof (induction cmp first hole n rule: adjust_heap_loop.induct)
  case (1 cmp first hole n)
  show ?case
  proof (cases "hole < (n - 1) div 2")
    case False
    then show ?thesis
      by (subst adjust_heap_loop.simps, subst (2) adjust_heap_loop.simps) simp
  next
    case True
    let ?l = "2 * (hole + 1) - 1"
    let ?r = "2 * (hole + 1)"
    have rn: "?r < length first" "?l < length first" using True "1.prems"(2) by arith+
    have eq: "cmp (first ! ?r) (first ! ?l) = cmp' (first ! ?r) (first ! ?l)"
      using "1.prems"(1) rn by simp
    define c where "c = (if cmp (first ! ?r) (first ! ?l) then ?l else ?r)"
    have cl: "c < length first" using rn by (simp add: c_def)
    let ?first' = "first[hole := first ! c]"
    have sub: "set ?first' \<subseteq> set first"
      using set_update_subset_insert[of first hole "first ! c"] nth_mem[OF cl] by auto
    have ag: "\<forall>a \<in> set ?first'. \<forall>b \<in> set ?first'. cmp a b = cmp' a b"
      using "1.prems"(1) sub by blast
    have len: "n \<le> length ?first'" using "1.prems"(2) by simp
    have rec: "adjust_heap_loop cmp ?first' c n = adjust_heap_loop cmp' ?first' c n"
      using "1.IH"[OF True refl _ ag len] by (simp add: c_def)
    have s1: "adjust_heap_loop cmp first hole n = adjust_heap_loop cmp ?first' c n"
      using True by (subst adjust_heap_loop.simps) (simp add: Let_def c_def)
    have s2: "adjust_heap_loop cmp' first hole n = adjust_heap_loop cmp' ?first' c n"
      using True eq by (subst adjust_heap_loop.simps) (simp add: Let_def c_def)
    show ?thesis using rec s1 s2 by simp
  qed
qed

lemma adjust_heap_cong:
  assumes ag: "\<forall>a \<in> insert v (set first). \<forall>b \<in> insert v (set first). cmp a b = cmp' a b"
    and n0: "0 < n" and nl: "n \<le> length first"
  shows "adjust_heap cmp first 0 n v = adjust_heap cmp' first 0 n v"
proof -
  obtain r h' where loop: "adjust_heap_loop cmp first 0 n = (r, h')"
    by (cases "adjust_heap_loop cmp first 0 n") auto
  have loop': "adjust_heap_loop cmp' first 0 n = (r, h')"
    using adjust_heap_loop_cong[of first cmp cmp' n 0] ag nl loop by simp
  from adjust_heap_loop_mset[OF n0 nl loop]
  have hn: "h' < n" and lr: "length r = length first" and sr: "set r \<subseteq> set first" by auto
  define special where "special = (n mod 2 = 0 \<and> h' = (n - 2) div 2)"
  define r2 where "r2 = (if special then r[h' := r ! (2 * (h' + 1) - 1)] else r)"
  define h2 where "h2 = (if special then 2 * (h' + 1) - 1 else h')"
  have u1: "adjust_heap cmp first 0 n v = push_heap_loop cmp r2 h2 0 v"
    by (simp add: adjust_heap_def loop Let_def r2_def h2_def special_def)
  have u2: "adjust_heap cmp' first 0 n v = push_heap_loop cmp' r2 h2 0 v"
    by (simp add: adjust_heap_def loop' Let_def r2_def h2_def special_def)
  have h2n: "h2 < n" using hn n0 by (auto simp: h2_def special_def) arith
  have lr2: "length r2 = length first" by (simp add: r2_def lr)
  have il: "2 * (h' + 1) - 1 < length r" if special
    using that hn nl lr by (auto simp: special_def) arith
  have sr2: "set r2 \<subseteq> set first"
  proof (cases special)
    case False
    then show ?thesis using sr by (simp add: r2_def)
  next
    case True
    have "set (r[h' := r ! (2 * (h' + 1) - 1)]) \<subseteq> insert (r ! (2 * (h' + 1) - 1)) (set r)"
      by (rule set_update_subset_insert)
    then show ?thesis using True sr nth_mem[OF il[OF True]] by (auto simp: r2_def)
  qed
  have ag2: "\<forall>a \<in> insert v (set r2). \<forall>b \<in> insert v (set r2). cmp a b = cmp' a b"
    using ag sr2 by blast
  have "h2 < length r2" using h2n nl lr2 by simp
  from push_heap_loop_cong[OF ag2 this] show ?thesis by (simp add: u1 u2)
qed

lemma pq_push_cong:
  assumes "\<forall>a \<in> insert x (set c). \<forall>b \<in> insert x (set c). cmp a b = cmp' a b"
  shows "pq_push cmp c x = pq_push cmp' c x"
proof -
  have "push_heap_loop cmp (c @ [x]) (length c) 0 x = push_heap_loop cmp' (c @ [x]) (length c) 0 x"
    by (rule push_heap_loop_cong) (use assms in auto)
  then show ?thesis by (simp add: pq_push_def Let_def)
qed

lemma pq_pop_cong:
  assumes "\<forall>a \<in> set c. \<forall>b \<in> set c. cmp a b = cmp' a b"
  shows "pq_pop cmp c = pq_pop cmp' c"
proof (cases "length c > 1")
  case False
  then show ?thesis by (simp add: pq_pop_def)
next
  case True
  define n where "n = length c - 1"
  define c1 where "c1 = c[n := c ! 0]"
  have n0: "0 < n" and nl: "n \<le> length c1" and nlc: "n < length c"
    using True by (auto simp: n_def c1_def)
  have "set c1 \<subseteq> insert (c ! 0) (set c)"
    unfolding c1_def by (rule set_update_subset_insert)
  moreover have "c ! 0 \<in> set c" by (rule nth_mem) (use True in arith)
  ultimately have sub: "set c1 \<subseteq> set c" by auto
  have "c ! n \<in> set c" using nlc by simp
  then have ag: "\<forall>a \<in> insert (c ! n) (set c1). \<forall>b \<in> insert (c ! n) (set c1). cmp a b = cmp' a b"
    using assms sub by blast
  from adjust_heap_cong[OF ag n0 nl] True
  show ?thesis by (simp add: pq_pop_def Let_def c1_def n_def)
qed

lemma pq_push_heap:
  assumes "is_heap f c"
    and "\<forall>a \<in> insert x (set c). \<forall>b \<in> insert x (set c). cmp a b = (f a < f b)"
  shows "is_heap f (pq_push cmp c x)"
  using pq_push_props[OF assms(1), of x] pq_push_cong[of x c cmp "\<lambda>a b. f a < f b"] assms(2)
  by simp

lemma pq_pop_heap:
  assumes "is_heap f c" and "c \<noteq> []"
    and "\<forall>a \<in> set c. \<forall>b \<in> set c. cmp a b = (f a < f b)"
  shows "is_heap f (pq_pop cmp c)"
  using pq_pop_props[OF assms(1,2)] pq_pop_cong[of c cmp "\<lambda>a b. f a < f b"] assms(3)
  by simp

lemma pq_pop_subset: "c \<noteq> [] \<Longrightarrow> set (pq_pop cmp c) \<subseteq> set c"
  using arg_cong[OF pq_pop_mset[of c cmp], of set_mset] by auto

subsection \<open>Scores that are not NaN\<close>

lemma arctan_bounds2: "- 2 < arctan x \<and> arctan x < 2"
  using arctan_lbound[of x] arctan_ubound[of x] pi_less_4 by simp

lemma float_key_less:
  "a \<noteq> NaN \<Longrightarrow> b \<noteq> NaN \<Longrightarrow> float_less a b = (float_key a < float_key b)"
  using arctan_bounds2
  by (cases a; cases b) (simp_all add: float_key_def arctan_less_iff less_imp_le not_less)

lemma float_key_le:
  "a \<noteq> NaN \<Longrightarrow> b \<noteq> NaN \<Longrightarrow> float_le a b = (float_key a \<le> float_key b)"
  using arctan_bounds2
  by (cases a; cases b) (simp_all add: float_key_def arctan_le_iff less_imp_le not_le)

section \<open>Ordering, equality and hashing of derivations\<close>

lemma DerivationOrderer_key:
  "score a \<noteq> NaN \<Longrightarrow> score b \<noteq> NaN \<Longrightarrow>
   DerivationOrderer a b = (float_key (score a) < float_key (score b))"
  by (simp add: DerivationOrderer_def float_key_less)

lemma DerivationQueue_is_heap:
  "DerivationQueue (\<lambda>d. score d \<noteq> NaN) c \<Longrightarrow>
   is_heap (\<lambda>d. float_key (score d)) c \<and> (\<forall>d \<in> set c. score d \<noteq> NaN)"
proof (induction rule: DerivationQueue.induct)
  case empty
  show ?case by simp
next
  case (push c d)
  have st: "set (pq_push DerivationOrderer c d) = insert d (set c)"
    using arg_cong[OF pq_push_mset[of DerivationOrderer c d], of set_mset] by simp
  have "is_heap (\<lambda>d. float_key (score d)) (pq_push DerivationOrderer c d)"
    by (rule pq_push_heap) (use push in \<open>auto simp: DerivationOrderer_key\<close>)
  then show ?case using push st by auto
next
  case (pop c)
  have "is_heap (\<lambda>d. float_key (score d)) (pq_pop DerivationOrderer c)"
    by (rule pq_pop_heap) (use pop in \<open>auto simp: DerivationOrderer_key\<close>)
  then show ?case using pop pq_pop_subset[of c DerivationOrderer] by auto
qed

lemma vector_eq_iff: "vector_eq xs ys \<longleftrightarrow> xs = ys"
  by (induction xs ys rule: vector_eq.induct) auto

lemma DerivationEqualityPred_iff:
  "DerivationEqualityPred d1 d2 \<longleftrightarrow>
     head (edge d1) = head (edge d2) \<and> tail (edge d1) = tail (edge d2) \<and>
     backPointers d1 = backPointers d2"
  by (simp add: DerivationEqualityPred_def vector_eq_iff)

text \<open>
  C6 as stated fails: four candidates of equal score pushed in the order 1, 2, 3, 4 leave the
  queue in the order 1, 3, 2, 4. Candidate 2 was pushed before candidate 3 and is popped after
  it.
\<close>

theorem equal_scores_not_fifo:
  "score \<lparr>edge = \<lparr>head = 2, tail = []\<rparr>, backPointers = [], scoreBreakdown = (), score = Finite 5\<rparr>
     = score \<lparr>edge = \<lparr>head = 3, tail = []\<rparr>, backPointers = [], scoreBreakdown = (), score = Finite 5\<rparr>
   \<and> map (\<lambda>d. head (edge d))
       (pq_pops DerivationOrderer 4
         (pq_push DerivationOrderer
           (pq_push DerivationOrderer
             (pq_push DerivationOrderer
               (pq_push DerivationOrderer []
                 \<lparr>edge = \<lparr>head = 1, tail = []\<rparr>, backPointers = [], scoreBreakdown = (), score = Finite 5\<rparr>)
               \<lparr>edge = \<lparr>head = 2, tail = []\<rparr>, backPointers = [], scoreBreakdown = (), score = Finite 5\<rparr>)
             \<lparr>edge = \<lparr>head = 3, tail = []\<rparr>, backPointers = [], scoreBreakdown = (), score = Finite 5\<rparr>)
           \<lparr>edge = \<lparr>head = 4, tail = []\<rparr>, backPointers = [], scoreBreakdown = (), score = Finite 5\<rparr>))
     = [1, 3, 2, 4]"
  by (simp add: pq_push_def pq_pop_def pq_top_def adjust_heap_def push_heap_loop.simps
      adjust_heap_loop.simps DerivationOrderer_def Let_def numeral_eq_Suc)

text \<open>
  A NaN score breaks the order of the heap: \<^verbatim>\<open><\<close> is false on both sides of a NaN. After the
  pushes of the scores 5, NaN, 4 and 9 the candidate at the top has the score 5 while the
  candidate with the score 9 is in the queue.
\<close>

lemma nan_score_breaks_max_first:
  "pq_push DerivationOrderer
     (pq_push DerivationOrderer
       (pq_push DerivationOrderer
         (pq_push DerivationOrderer []
           \<lparr>edge = \<lparr>head = 1, tail = []\<rparr>, backPointers = [], scoreBreakdown = (), score = Finite 5\<rparr>)
         \<lparr>edge = \<lparr>head = 2, tail = []\<rparr>, backPointers = [], scoreBreakdown = (), score = NaN\<rparr>)
       \<lparr>edge = \<lparr>head = 3, tail = []\<rparr>, backPointers = [], scoreBreakdown = (), score = Finite 4\<rparr>)
     \<lparr>edge = \<lparr>head = 4, tail = []\<rparr>, backPointers = [], scoreBreakdown = (), score = Finite 9\<rparr>
   = [\<lparr>edge = \<lparr>head = 1, tail = []\<rparr>, backPointers = [], scoreBreakdown = (), score = Finite 5\<rparr>,
      \<lparr>edge = \<lparr>head = 2, tail = []\<rparr>, backPointers = [], scoreBreakdown = (), score = NaN\<rparr>,
      \<lparr>edge = \<lparr>head = 3, tail = []\<rparr>, backPointers = [], scoreBreakdown = (), score = Finite 4\<rparr>,
      \<lparr>edge = \<lparr>head = 4, tail = []\<rparr>, backPointers = [], scoreBreakdown = (), score = Finite 9\<rparr>]
   \<and> \<not> float_le (Finite 9) (Finite 5)"
  by (simp add: pq_push_def push_heap_loop.simps DerivationOrderer_def Let_def)

text \<open>
  C6, amended. The queue orders candidates by score alone: \<^verbatim>\<open>DerivationOrderer\<close> reads no
  field but \<^verbatim>\<open>score\<close> and puts neither of two candidates of equal score before the other.
  In every queue built by pushes and pops, \<^verbatim>\<open>push\<close> adds its candidate and \<^verbatim>\<open>pop\<close> removes the
  candidate at the top and no other. If no candidate with a NaN score has been pushed, the
  candidate at the top has a score no smaller than any candidate in the queue. Which of
  several candidates of the maximal score is at the top is decided by the layout of the
  heap, not by the order of insertion.
\<close>

theorem DerivationQueue_max_first:
  "(DerivationOrderer d1 d2 \<longleftrightarrow> float_less (score d1) (score d2))
   \<and> (score d1 = score d2 \<longrightarrow> \<not> DerivationOrderer d1 d2 \<and> \<not> DerivationOrderer d2 d1)
   \<and> (DerivationQueue (\<lambda>d. score d \<noteq> NaN) c \<and> c \<noteq> [] \<longrightarrow>
        (\<forall>d \<in> set c. float_le (score d) (score (pq_top c)))
        \<and> DerivationQueue (\<lambda>d. score d \<noteq> NaN) (pq_pop DerivationOrderer c))
   \<and> (DerivationQueue P c \<and> c \<noteq> [] \<longrightarrow>
        pq_top c \<in> set c
        \<and> add_mset (pq_top c) (mset (pq_pop DerivationOrderer c)) = mset c)
   \<and> (DerivationQueue P c \<longrightarrow> mset (pq_push DerivationOrderer c d) = add_mset d (mset c))"
proof (intro conjI impI ballI)
  show "DerivationOrderer d1 d2 \<longleftrightarrow> float_less (score d1) (score d2)"
    by (simp add: DerivationOrderer_def)
next
  assume "score d1 = score d2"
  then show "\<not> DerivationOrderer d1 d2" "\<not> DerivationOrderer d2 d1"
    by (cases "score d2"; simp add: DerivationOrderer_def)+
next
  fix x assume a: "DerivationQueue (\<lambda>d. score d \<noteq> NaN) c \<and> c \<noteq> []" and x: "x \<in> set c"
  from a have h: "is_heap (\<lambda>d. float_key (score d)) c" and nn: "\<forall>d \<in> set c. score d \<noteq> NaN"
    using DerivationQueue_is_heap[of c] by auto
  have t: "pq_top c \<in> set c" using a by (simp add: pq_top_in)
  have "float_key (score x) \<le> float_key (score (pq_top c))" using pq_top_max[OF h x] .
  then show "float_le (score x) (score (pq_top c))"
    using nn x t by (simp add: float_key_le)
next
  assume a: "DerivationQueue (\<lambda>d. score d \<noteq> NaN) c \<and> c \<noteq> []"
  then show "DerivationQueue (\<lambda>d. score d \<noteq> NaN) (pq_pop DerivationOrderer c)"
    by (simp add: DerivationQueue.pop)
next
  assume a: "DerivationQueue P c \<and> c \<noteq> []"
  show "pq_top c \<in> set c" using a by (simp add: pq_top_in)
  show "add_mset (pq_top c) (mset (pq_pop DerivationOrderer c)) = mset c"
    using a by (simp add: pq_pop_mset)
next
  show "mset (pq_push DerivationOrderer c d) = add_mset d (mset c)" by (rule pq_push_mset)
qed

theorem DerivationQueue_max_first_witness:
  "DerivationQueue (\<lambda>d. score d \<noteq> NaN)
     [\<lparr>edge = \<lparr>head = 2, tail = []\<rparr>, backPointers = [], scoreBreakdown = (), score = Finite 5\<rparr>,
      \<lparr>edge = \<lparr>head = 1, tail = []\<rparr>, backPointers = [], scoreBreakdown = (), score = Finite 3\<rparr>,
      \<lparr>edge = \<lparr>head = 3, tail = []\<rparr>, backPointers = [], scoreBreakdown = (), score = Finite 4\<rparr>]
   \<and> pq_push DerivationOrderer
       (pq_push DerivationOrderer
         (pq_push DerivationOrderer []
           \<lparr>edge = \<lparr>head = 1, tail = []\<rparr>, backPointers = [], scoreBreakdown = (), score = Finite 3\<rparr>)
         \<lparr>edge = \<lparr>head = 2, tail = []\<rparr>, backPointers = [], scoreBreakdown = (), score = Finite 5\<rparr>)
       \<lparr>edge = \<lparr>head = 3, tail = []\<rparr>, backPointers = [], scoreBreakdown = (), score = Finite 4\<rparr>
     = [\<lparr>edge = \<lparr>head = 2, tail = []\<rparr>, backPointers = [], scoreBreakdown = (), score = Finite 5\<rparr>,
        \<lparr>edge = \<lparr>head = 1, tail = []\<rparr>, backPointers = [], scoreBreakdown = (), score = Finite 3\<rparr>,
        \<lparr>edge = \<lparr>head = 3, tail = []\<rparr>, backPointers = [], scoreBreakdown = (), score = Finite 4\<rparr>]
   \<and> pq_top
        [\<lparr>edge = \<lparr>head = 2, tail = []\<rparr>, backPointers = [], scoreBreakdown = (), score = Finite 5\<rparr>,
         \<lparr>edge = \<lparr>head = 1, tail = []\<rparr>, backPointers = [], scoreBreakdown = (), score = Finite 3\<rparr>,
         \<lparr>edge = \<lparr>head = 3, tail = []\<rparr>, backPointers = [], scoreBreakdown = (), score = Finite 4\<rparr>]
     = \<lparr>edge = \<lparr>head = 2, tail = []\<rparr>, backPointers = [], scoreBreakdown = (), score = Finite 5\<rparr>
   \<and> float_le (Finite 3) (Finite 5) \<and> float_le (Finite 4) (Finite 5)
   \<and> pq_pop DerivationOrderer
        [\<lparr>edge = \<lparr>head = 2, tail = []\<rparr>, backPointers = [], scoreBreakdown = (), score = Finite 5\<rparr>,
         \<lparr>edge = \<lparr>head = 1, tail = []\<rparr>, backPointers = [], scoreBreakdown = (), score = Finite 3\<rparr>,
         \<lparr>edge = \<lparr>head = 3, tail = []\<rparr>, backPointers = [], scoreBreakdown = (), score = Finite 4\<rparr>]
     = [\<lparr>edge = \<lparr>head = 3, tail = []\<rparr>, backPointers = [], scoreBreakdown = (), score = Finite 4\<rparr>,
        \<lparr>edge = \<lparr>head = 1, tail = []\<rparr>, backPointers = [], scoreBreakdown = (), score = Finite 3\<rparr>]
   \<and> DerivationQueue (\<lambda>d. score d \<noteq> NaN)
        [\<lparr>edge = \<lparr>head = 3, tail = []\<rparr>, backPointers = [], scoreBreakdown = (), score = Finite 4\<rparr>,
         \<lparr>edge = \<lparr>head = 1, tail = []\<rparr>, backPointers = [], scoreBreakdown = (), score = Finite 3\<rparr>]"
proof -
  let ?a = "\<lparr>edge = \<lparr>head = 1, tail = []\<rparr>, backPointers = [], scoreBreakdown = (), score = Finite 3\<rparr>"
  let ?b = "\<lparr>edge = \<lparr>head = 2, tail = []\<rparr>, backPointers = [], scoreBreakdown = (), score = Finite 5\<rparr>"
  let ?c = "\<lparr>edge = \<lparr>head = 3, tail = []\<rparr>, backPointers = [], scoreBreakdown = (), score = Finite 4\<rparr>"
  let ?q = "pq_push DerivationOrderer (pq_push DerivationOrderer (pq_push DerivationOrderer [] ?a) ?b) ?c"
  have q: "DerivationQueue (\<lambda>d. score d \<noteq> NaN) ?q" by (intro DerivationQueue.intros) simp_all
  have e: "?q = [?b, ?a, ?c]"
    by (simp add: pq_push_def push_heap_loop.simps DerivationOrderer_def Let_def)
  have p: "pq_pop DerivationOrderer [?b, ?a, ?c] = [?c, ?a]"
    by (simp add: pq_pop_def adjust_heap_def push_heap_loop.simps adjust_heap_loop.simps
        DerivationOrderer_def Let_def)
  show ?thesis
    using DerivationQueue_max_first[of ?a ?b ?q "\<lambda>d. score d \<noteq> NaN" ?a] q e p
    by (simp add: pq_top_def)
qed

text \<open>
  C7. The equality of the dedup set is structural: it holds exactly when the heads, the tail
  sequences and the back-pointer sequences are equal (two hyperarcs are equal exactly when
  head and tail are), so it is an equivalence that reads neither the score nor the score
  breakdown nor where the two derivation objects live. The hash is computed from the same
  three components: derivations that compare equal have equal hashes, whatever
  \<^verbatim>\<open>hash_combine\<close> computes.
\<close>

theorem DerivationEqualityPred_structural:
  "(DerivationEqualityPred d1 d2 \<longleftrightarrow>
      head (edge d1) = head (edge d2) \<and> tail (edge d1) = tail (edge d2) \<and>
      backPointers d1 = backPointers d2)
   \<and> (edge d1 = edge d2 \<longleftrightarrow> head (edge d1) = head (edge d2) \<and> tail (edge d1) = tail (edge d2))
   \<and> DerivationEqualityPred (d1\<lparr>score := s, scoreBreakdown := b\<rparr>) d2 = DerivationEqualityPred d1 d2
   \<and> DerivationEqualityPred d1 d1
   \<and> DerivationEqualityPred d1 d2 = DerivationEqualityPred d2 d1
   \<and> (DerivationEqualityPred d1 d2 \<and> DerivationEqualityPred d2 d3 \<longrightarrow> DerivationEqualityPred d1 d3)
   \<and> (DerivationEqualityPred d1 d2 \<longrightarrow>
        DerivationHasher hc_ptr hc_ptrs hc_sizes d1 = DerivationHasher hc_ptr hc_ptrs hc_sizes d2)"
  by (auto simp: DerivationEqualityPred_iff DerivationHasher_def Let_def
      UnweightedHyperarc.equality)

theorem DerivationEqualityPred_structural_witness:
  "DerivationEqualityPred
     \<lparr>edge = \<lparr>head = 7, tail = [3, 4]\<rparr>, backPointers = [0, 1], scoreBreakdown = (2::real), score = Finite 5\<rparr>
     \<lparr>edge = \<lparr>head = 7, tail = [3, 4]\<rparr>, backPointers = [0, 1], scoreBreakdown = 6, score = Finite 9\<rparr>
   \<and> DerivationHasher boost_hc_ptr boost_hc_ptrs boost_hc_sizes
       \<lparr>edge = \<lparr>head = 7, tail = [3, 4]\<rparr>, backPointers = [0, 1], scoreBreakdown = (2::real), score = Finite 5\<rparr>
     = DerivationHasher boost_hc_ptr boost_hc_ptrs boost_hc_sizes
       \<lparr>edge = \<lparr>head = 7, tail = [3, 4]\<rparr>, backPointers = [0, 1], scoreBreakdown = (6::real), score = Finite 9\<rparr>
   \<and> \<not> DerivationEqualityPred
       \<lparr>edge = \<lparr>head = 7, tail = [3, 4]\<rparr>, backPointers = [0, 1], scoreBreakdown = (2::real), score = Finite 5\<rparr>
       \<lparr>edge = \<lparr>head = 7, tail = [3, 4]\<rparr>, backPointers = [1, 1], scoreBreakdown = 2, score = Finite 5\<rparr>
   \<and> \<not> DerivationEqualityPred
       \<lparr>edge = \<lparr>head = 7, tail = [3, 4]\<rparr>, backPointers = [0, 1], scoreBreakdown = (2::real), score = Finite 5\<rparr>
       \<lparr>edge = \<lparr>head = 7, tail = [3]\<rparr>, backPointers = [0, 1], scoreBreakdown = 2, score = Finite 5\<rparr>"
  using DerivationEqualityPred_structural
    [of "\<lparr>edge = \<lparr>head = 7, tail = [3, 4]\<rparr>, backPointers = [0, 1], scoreBreakdown = (2::real), score = Finite 5\<rparr>"
        "\<lparr>edge = \<lparr>head = 7, tail = [3, 4]\<rparr>, backPointers = [0, 1], scoreBreakdown = (6::real), score = Finite 9\<rparr>"
        5 "Finite 2"
        "\<lparr>edge = \<lparr>head = 7, tail = [3, 4]\<rparr>, backPointers = [0, 1], scoreBreakdown = (6::real), score = Finite 9\<rparr>"
        boost_hc_ptr boost_hc_ptrs boost_hc_sizes]
  by (simp add: DerivationEqualityPred_def)

section \<open>The invariant is kept by every procedure of the extractor\<close>

lemma vx_upd [simp]: "vx (m(v \<mapsto> x)) w = (if w = v then x else vx m w)"
  by (simp add: vx_def FindOrCreateVertex_def split: option.splits)

lemma vx_foc [simp]: "vx (snd (FindOrCreateVertex m u)) w = vx m w"
  by (auto simp: vx_def FindOrCreateVertex_def Vertex_ctor_def split: option.splits)

lemma grows_refl [simp]: "grows m m"
  by (simp add: grows_def)

lemma grows_trans: "grows m m1 \<Longrightarrow> grows m1 m2 \<Longrightarrow> grows m m2"
  unfolding grows_def by (meson prefix_order.trans)

lemma untouched_from_refl [simp]: "untouched_from v m m"
  by (simp add: untouched_from_def)

lemma untouched_from_trans: "untouched_from v m m1 \<Longrightarrow> untouched_from v m1 m2 \<Longrightarrow> untouched_from v m m2"
  by (simp add: untouched_from_def)

lemma untouched_from_mono: "untouched_from u m m' \<Longrightarrow> u \<le> v \<Longrightarrow> untouched_from v m m'"
  by (simp add: untouched_from_def)

lemma grows_foc [simp]: "grows m (snd (FindOrCreateVertex m u))"
  by (simp add: grows_def)

lemma untouched_from_foc [simp]: "untouched_from v m (snd (FindOrCreateVertex m u))"
  by (simp add: untouched_from_def)

lemma prefix_nth: "prefix xs ys \<Longrightarrow> i < length xs \<Longrightarrow> ys ! i = xs ! i"
  by (auto simp: prefix_def nth_append)

lemma child_derivations_grows:
  "grows m m' \<Longrightarrow> child_derivations m us rs = Some ds \<Longrightarrow> child_derivations m' us rs = Some ds"
proof (induction m us rs arbitrary: ds rule: child_derivations.induct)
  case (1 m)
  then show ?case by simp
next
  case (2 m u us r rs)
  from "2.prems"(2) obtain ds' where r: "r < length (kBestList (vx m u))"
    and c: "child_derivations m us rs = Some ds'" and ds: "ds = kBestList (vx m u) ! r # ds'"
    by (auto split: if_splits option.splits)
  have p: "prefix (kBestList (vx m u)) (kBestList (vx m' u))"
    using "2.prems"(1) by (simp add: grows_def)
  have "r < length (kBestList (vx m' u))" using r prefix_length_le[OF p] by simp
  moreover have "kBestList (vx m' u) ! r = kBestList (vx m u) ! r" using prefix_nth[OF p r] .
  ultimately show ?case using "2.IH"[OF r "2.prems"(1) c] ds by simp
qed simp_all

lemma make_derivation_grows:
  "grows m m' \<Longrightarrow> make_derivation g m e bps = Some d \<Longrightarrow> make_derivation g m' e bps = Some d"
  by (auto simp: make_derivation_def child_derivations_grows split: option.splits)

lemma deriv_ok_grows: "grows m m' \<Longrightarrow> deriv_ok g m v d \<Longrightarrow> deriv_ok g m' v d"
  by (auto simp: deriv_ok_def make_derivation_grows)

lemma vertex_ok_grows:
  "vx m' w = vx m w \<Longrightarrow> grows m m' \<Longrightarrow> vertex_ok hf g m w \<Longrightarrow> vertex_ok hf g m' w"
  unfolding vertex_ok_def by (auto intro: deriv_ok_grows)

lemma make_derivation_Some:
  "make_derivation g m e bps = Some d \<Longrightarrow>
   \<exists>ds. child_derivations m (tail e) bps = Some ds \<and>
     d = \<lparr>edge = e, backPointers = bps,
          scoreBreakdown = snd (hyperarc_local g e) + sum_list (map scoreBreakdown ds),
          score = foldl float_add (fst (hyperarc_local g e)) (map score ds)\<rparr>"
  by (auto simp: make_derivation_def split: option.splits)

lemma make_derivation_fields:
  "make_derivation g m e bps = Some d \<Longrightarrow> edge d = e \<and> backPointers d = bps"
  by (auto simp: make_derivation_def split: option.splits)

lemma make_derivation_deriv_ok:
  "make_derivation g m e bps = Some d \<Longrightarrow> head e \<in> set (incoming g v) \<Longrightarrow>
   e = CreateEdge g (head e) \<Longrightarrow> \<forall>u \<in> set (tail e). u < v \<Longrightarrow> deriv_ok g m v d"
  using make_derivation_fields[of g m e bps d] by (simp add: deriv_ok_def)

lemma child_derivations_length:
  "child_derivations m us rs = Some ds \<Longrightarrow> length us = length rs \<and> length ds = length rs"
  by (induction m us rs arbitrary: ds rule: child_derivations.induct)
     (auto split: if_splits option.splits)

lemma child_derivations_in:
  "child_derivations m us rs = Some ds \<Longrightarrow> \<forall>d \<in> set ds. \<exists>u. d \<in> set (kBestList (vx m u))"
proof (induction m us rs arbitrary: ds rule: child_derivations.induct)
  case (2 m u us r rs)
  from "2.prems" obtain es where r: "r < length (kBestList (vx m u))"
    and c: "child_derivations m us rs = Some es" and ds: "ds = kBestList (vx m u) ! r # es"
    by (auto split: if_splits option.splits)
  have "kBestList (vx m u) ! r \<in> set (kBestList (vx m u))" using r by simp
  then show ?case using "2.IH"[OF r c] ds by auto
qed simp_all

lemma Derivation_succ_ok:
  assumes ok: "deriv_ok g m v d" and s: "Derivation_succ g m d i = Some d'"
  shows "deriv_ok g m v d' \<and> edge d' = edge d
         \<and> backPointers d' = (backPointers d)[i := backPointers d ! i + 1] \<and> i < length (backPointers d)"
proof -
  from s have i: "i < length (backPointers d)"
    and mk: "make_derivation g m (edge d) ((backPointers d)[i := backPointers d ! i + 1]) = Some d'"
    by (auto simp: Derivation_succ_def split: if_splits)
  from ok have hd: "head (edge d) \<in> set (incoming g v)" and ce: "edge d = CreateEdge g (head (edge d))"
    and tl: "\<forall>u \<in> set (tail (edge d)). u < v"
    by (auto simp: deriv_ok_def)
  have f: "edge d' = edge d" "backPointers d' = (backPointers d)[i := backPointers d ! i + 1]"
    using make_derivation_fields[OF mk] by auto
  have okd': "deriv_ok g m v d'"
    using make_derivation_deriv_ok[OF mk hd ce tl] .
  then show ?thesis using f i by simp
qed

subsection \<open>Finite scores\<close>

lemma is_finite_iff: "is_finite x \<longleftrightarrow> x = Finite (rval x)"
  by (cases x) simp_all

lemma float_less_finite: "is_finite a \<Longrightarrow> is_finite b \<Longrightarrow> float_less a b = (rval a < rval b)"
  by (cases a; cases b) simp_all

lemma float_le_finite: "is_finite a \<Longrightarrow> is_finite b \<Longrightarrow> float_le a b = (rval a \<le> rval b)"
  by (cases a; cases b) simp_all

lemma DerivationOrderer_finite:
  "is_finite (score a) \<Longrightarrow> is_finite (score b) \<Longrightarrow> DerivationOrderer a b = (rscore a < rscore b)"
  by (simp add: DerivationOrderer_def rscore_def float_less_finite)

lemma foldl_float_add_finite:
  "is_finite s \<Longrightarrow> \<forall>d \<in> set ds. is_finite (score d) \<Longrightarrow>
   foldl float_add s (map score ds) = Finite (rval s + sum_list (map rscore ds))"
proof (induction ds arbitrary: s)
  case Nil
  then show ?case by (simp add: is_finite_iff[symmetric])
next
  case (Cons d ds)
  obtain x y where x: "s = Finite x" and y: "score d = Finite y"
    using Cons.prems by (metis is_finite_iff list.set_intros(1))
  have "foldl float_add (Finite (x + y)) (map score ds)
        = Finite (rval (Finite (x + y)) + sum_list (map rscore ds))"
    by (rule Cons.IH) (use Cons.prems in simp_all)
  then show ?case using x y by (simp add: rscore_def[abs_def])
qed

lemma sorted_real_nth:
  "sorted_wrt (\<lambda>a b. rscore b \<le> rscore a) ds \<Longrightarrow> i \<le> j \<Longrightarrow> j < length ds \<Longrightarrow>
   rscore (ds ! j) \<le> rscore (ds ! i)"
  by (cases "i = j") (auto simp: sorted_wrt_iff_nth_less)

lemma sorted_real_last:
  "sorted_wrt (\<lambda>a b. rscore b \<le> rscore a) ds \<Longrightarrow> b \<in> set ds \<Longrightarrow> rscore (last ds) \<le> rscore b"
proof -
  assume a: "sorted_wrt (\<lambda>a b. rscore b \<le> rscore a) ds" "b \<in> set ds"
  then obtain i where i: "i < length ds" "ds ! i = b" by (auto simp: in_set_conv_nth)
  have "ds \<noteq> []" using a(2) by auto
  then have "last ds = ds ! (length ds - 1)" by (simp add: last_conv_nth)
  then show ?thesis using sorted_real_nth[OF a(1), of i "length ds - 1"] i by auto
qed

lemma child_derivations_succ_le:
  "child_derivations m us rs = Some ds \<Longrightarrow>
   child_derivations m us (rs[i := rs ! i + 1]) = Some ds' \<Longrightarrow>
   \<forall>u. sorted_wrt (\<lambda>a b. rscore b \<le> rscore a) (kBestList (vx m u)) \<Longrightarrow>
   sum_list (map rscore ds') \<le> sum_list (map rscore ds)"
proof (induction m us rs arbitrary: ds ds' i rule: child_derivations.induct)
  case (1 m)
  then show ?case by simp
next
  case (2 m u us r rs)
  from "2.prems"(1) obtain es where r: "r < length (kBestList (vx m u))"
    and c: "child_derivations m us rs = Some es" and ds: "ds = kBestList (vx m u) ! r # es"
    by (auto split: if_splits option.splits)
  show ?case
  proof (cases i)
    case 0
    with "2.prems"(2) c have r1: "r + 1 < length (kBestList (vx m u))"
      and ds': "ds' = kBestList (vx m u) ! (r + 1) # es"
      by (auto split: if_splits option.splits)
    have "rscore (kBestList (vx m u) ! (r + 1)) \<le> rscore (kBestList (vx m u) ! r)"
      using sorted_real_nth[of "kBestList (vx m u)" r "r + 1"] "2.prems"(3) r1 by simp
    then show ?thesis using ds ds' by simp
  next
    case (Suc j)
    with "2.prems"(2) r obtain es' where c': "child_derivations m us (rs[j := rs ! j + 1]) = Some es'"
      and ds': "ds' = kBestList (vx m u) ! r # es'"
      by (auto split: if_splits option.splits)
    from "2.IH"[OF r c c' "2.prems"(3)] ds ds' show ?thesis by simp
  qed
qed simp_all

lemma make_derivation_finite:
  assumes fin: "finite_scores g" and ch: "\<forall>u. \<forall>d \<in> set (kBestList (vx m u)). is_finite (score d)"
    and mk: "make_derivation g m e bps = Some d"
  shows "\<exists>ds. child_derivations m (tail e) bps = Some ds \<and>
           score d = Finite (rval (localScore (g (head e))) + sum_list (map rscore ds))"
proof -
  from make_derivation_Some[OF mk] obtain ds where
    cd: "child_derivations m (tail e) bps = Some ds" and
    sc: "score d = foldl float_add (fst (hyperarc_local g e)) (map score ds)"
    by (metis Derivation.select_convs(4))
  have "\<forall>d \<in> set ds. is_finite (score d)" using child_derivations_in[OF cd] ch by blast
  moreover have "is_finite (localScore (g (head e)))" using fin by (simp add: finite_scores_def)
  ultimately show ?thesis
    using foldl_float_add_finite[of "localScore (g (head e))" ds] cd sc
    by (simp add: hyperarc_local_def)
qed

lemma Derivation_succ_le:
  assumes fin: "finite_scores g" and ch: "\<forall>u. \<forall>d \<in> set (kBestList (vx m u)). is_finite (score d)"
    and sorted: "\<forall>u. sorted_wrt (\<lambda>a b. rscore b \<le> rscore a) (kBestList (vx m u))"
    and ok: "deriv_ok g m v d" and s: "Derivation_succ g m d i = Some d'"
  shows "is_finite (score d) \<and> is_finite (score d') \<and> rscore d' \<le> rscore d"
proof -
  from s have mk: "make_derivation g m (edge d) ((backPointers d)[i := backPointers d ! i + 1]) = Some d'"
    by (auto simp: Derivation_succ_def split: if_splits)
  from ok have mk0: "make_derivation g m (edge d) (backPointers d) = Some d"
    by (auto simp: deriv_ok_def)
  from make_derivation_finite[OF fin ch mk0] obtain ds where
    cd: "child_derivations m (tail (edge d)) (backPointers d) = Some ds" and
    sc: "score d = Finite (rval (localScore (g (head (edge d)))) + sum_list (map rscore ds))"
    by blast
  from make_derivation_finite[OF fin ch mk] obtain ds' where
    cd': "child_derivations m (tail (edge d)) ((backPointers d)[i := backPointers d ! i + 1]) = Some ds'" and
    sc': "score d' = Finite (rval (localScore (g (head (edge d)))) + sum_list (map rscore ds'))"
    by blast
  have "sum_list (map rscore ds') \<le> sum_list (map rscore ds)"
    using child_derivations_succ_le[OF cd cd' sorted] .
  then show ?thesis using sc sc' by (simp add: rscore_def)
qed

lemma ordered_ok_scores_desc: "ordered_ok x \<Longrightarrow> scores_desc (kBestList x)"
  unfolding ordered_ok_def scores_desc_def
  by (rule sorted_wrt_mono_rel[of _ "\<lambda>a b. rscore b \<le> rscore a"])
     (auto simp: float_le_finite rscore_def)

lemma ordered_ok_cong:
  "kBestList y = kBestList x \<Longrightarrow> candidates y = candidates x \<Longrightarrow> ordered_ok y = ordered_ok x"
  by (simp add: ordered_ok_def)

lemma ordered_push:
  assumes o: "ordered_ok x" and f: "is_finite (score d)"
    and le: "\<forall>b \<in> set (kBestList x). rscore d \<le> rscore b"
  shows "ordered_ok (x\<lparr>seen := s, candidates := pq_push DerivationOrderer (candidates x) d\<rparr>)"
proof -
  have st: "set (pq_push DerivationOrderer (candidates x) d) = insert d (set (candidates x))"
    using arg_cong[OF pq_push_mset[of DerivationOrderer "candidates x" d], of set_mset] by simp
  have hp: "is_heap rscore (pq_push DerivationOrderer (candidates x) d)"
    by (rule pq_push_heap) (use o f in \<open>auto simp: ordered_ok_def DerivationOrderer_finite\<close>)
  show ?thesis using o f le hp st by (auto simp: ordered_ok_def)
qed

lemma ordered_pop:
  assumes o: "ordered_ok x" and ne: "candidates x \<noteq> []"
  shows "ordered_ok (x\<lparr>candidates := pq_pop DerivationOrderer (candidates x),
                       kBestList := kBestList x @ [pq_top (candidates x)]\<rparr>)"
proof -
  let ?d = "pq_top (candidates x)"
  have hp0: "is_heap rscore (candidates x)" using o by (simp add: ordered_ok_def)
  have sub: "set (pq_pop DerivationOrderer (candidates x)) \<subseteq> set (candidates x)"
    using pq_pop_subset[OF ne] .
  have din: "?d \<in> set (candidates x)" using ne by (rule pq_top_in)
  have hp: "is_heap rscore (pq_pop DerivationOrderer (candidates x))"
    by (rule pq_pop_heap[OF hp0 ne]) (use o in \<open>auto simp: ordered_ok_def DerivationOrderer_finite\<close>)
  have top: "\<forall>c \<in> set (candidates x). rscore c \<le> rscore ?d" using pq_top_max[OF hp0] by blast
  show ?thesis using o hp sub din top
    by (auto simp: ordered_ok_def sorted_wrt_append)
qed

lemma untouched_from_Suc: "untouched_from v m m' \<Longrightarrow> untouched_from (Suc v) m m'"
  by (simp add: untouched_from_def)

lemma stored_hash:
  "map fst s = map hf (map snd s) \<Longrightarrow> (h, e) \<in> set s \<Longrightarrow> h = hf e"
  by (induction s) auto

lemma dkey_eq_iff: "dkey e = dkey d \<longleftrightarrow> DerivationEqualityPred e d"
  by (auto simp: dkey_def DerivationEqualityPred_iff)

lemma DerivationSet_find_iff:
  assumes "hash_consistent hf" and "map fst s = map hf (map snd s)"
  shows "DerivationSet_find hf s d \<longleftrightarrow> dkey d \<in> set (map dkey (map snd s))"
proof
  assume "DerivationSet_find hf s d"
  then obtain h e where "(h, e) \<in> set s" "DerivationEqualityPred e d"
    by (auto simp: DerivationSet_find_def list_ex_iff)
  then show "dkey d \<in> set (map dkey (map snd s))"
    by (force simp: dkey_eq_iff[symmetric])
next
  assume "dkey d \<in> set (map dkey (map snd s))"
  then obtain h e where he: "(h, e) \<in> set s" and k: "dkey e = dkey d" by force
  have "h = hf e" using stored_hash[OF assms(2) he] .
  moreover have "hf e = hf d" using assms(1) k unfolding hash_consistent_def dkey_eq_iff by blast
  ultimately show "DerivationSet_find hf s d"
    using he k by (auto simp: DerivationSet_find_def list_ex_iff dkey_eq_iff)
qed

lemma state_okD: "state_ok hf g m \<Longrightarrow> vertex_ok hf g m v"
  by (simp add: state_ok_def)

lemma state_ok_hc: "state_ok hf g m \<Longrightarrow> hash_consistent hf"
  by (simp add: state_ok_def)

lemma state_ok_cong: "(\<And>w. vx m' w = vx m w) \<Longrightarrow> state_ok hf g m \<Longrightarrow> state_ok hf g m'"
  unfolding state_ok_def
  by (auto intro!: vertex_ok_grows[of m' _ m] simp: grows_def)

lemma state_ok_foc: "state_ok hf g m \<Longrightarrow> state_ok hf g (snd (FindOrCreateVertex m u))"
  by (rule state_ok_cong) simp_all

lemma state_ok_ordered: "state_ok hf g m \<Longrightarrow> finite_scores g \<Longrightarrow> ordered_ok (vx m u)"
  by (simp add: state_ok_def vertex_ok_def)

lemma state_ok_sorted:
  "state_ok hf g m \<Longrightarrow> finite_scores g \<Longrightarrow> \<forall>u. scores_desc (kBestList (vx m u))"
  using state_ok_ordered ordered_ok_scores_desc by blast

lemma state_ok_fin:
  assumes "state_ok hf g m" and "finite_scores g"
  shows "\<forall>u. \<forall>d \<in> set (kBestList (vx m u)). is_finite (score d)"
    and "\<forall>u. sorted_wrt (\<lambda>a b. rscore b \<le> rscore a) (kBestList (vx m u))"
  using state_ok_ordered[OF assms] by (auto simp: ordered_ok_def)

lemma set_visited_ok:
  assumes "state_ok hf g m"
  shows "state_ok hf g (m(v \<mapsto> (vx m v)\<lparr>visited := True\<rparr>))"
proof -
  let ?m' = "m(v \<mapsto> (vx m v)\<lparr>visited := True\<rparr>)"
  have g: "grows m ?m'" by (simp add: grows_def)
  have "vertex_ok hf g ?m' w" for w
  proof (cases "w = v")
    case False
    then show ?thesis using vertex_ok_grows[OF _ g state_okD[OF assms]] by simp
  next
    case True
    have "vertex_ok hf g m v" using assms by (rule state_okD)
    then show ?thesis unfolding vertex_ok_def True
      by (auto intro: deriv_ok_grows[OF g] simp: ordered_ok_def)
  qed
  then show ?thesis using assms by (simp add: state_ok_def)
qed

lemma mset_distinct_add:
  "mset xs = add_mset a (mset ys) \<Longrightarrow> distinct ys \<Longrightarrow> a \<notin> set ys \<Longrightarrow> distinct xs"
  by (metis distinct.simps(2) mset.simps(2) mset_eq_imp_distinct_iff)

lemma push_candidate_ok:
  assumes ok: "state_ok hf g m"
    and c: "\<And>d. cand = Some d \<Longrightarrow>
              deriv_ok g m v d \<and>
              (finite_scores g \<longrightarrow> is_finite (score d) \<and>
                 (\<forall>b \<in> set (kBestList (vx m v)). rscore d \<le> rscore b))"
  shows "state_ok hf g (push_candidate hf v cand m) \<and>
         (\<forall>w. kBestList (vx (push_candidate hf v cand m) w) = kBestList (vx m w)) \<and>
         (\<forall>w. w \<noteq> v \<longrightarrow> vx (push_candidate hf v cand m) w = vx m w) \<and>
         visited (vx (push_candidate hf v cand m) v) = visited (vx m v)"
proof (cases cand)
  case None
  then show ?thesis using ok by (simp add: push_candidate_def)
next
  case (Some d)
  let ?x = "vx m v"
  have vok: "vertex_ok hf g m v" using ok by (rule state_okD)
  have hc: "hash_consistent hf" using ok by (rule state_ok_hc)
  have sh: "map fst (seen ?x) = map hf (map snd (seen ?x))" using vok by (simp add: vertex_ok_def)
  have find: "DerivationSet_find hf (seen ?x) d \<longleftrightarrow> dkey d \<in> set (map dkey (map snd (seen ?x)))"
    by (rule DerivationSet_find_iff[OF hc sh])
  show ?thesis
  proof (cases "DerivationSet_find hf (seen ?x) d")
    case True
    then show ?thesis using ok Some
      by (simp add: push_candidate_def DerivationSet_insert_def)
  next
    case False
    let ?x' = "?x\<lparr>seen := seen ?x @ [(hf d, d)],
                  candidates := pq_push DerivationOrderer (candidates ?x) d\<rparr>"
    let ?m' = "m(v \<mapsto> ?x')"
    have m': "push_candidate hf v cand m = ?m'"
      using False Some by (simp add: push_candidate_def DerivationSet_insert_def Let_def)
    have g: "grows m ?m'" by (simp add: grows_def)
    have ms: "mset (pq_push DerivationOrderer (candidates ?x) d) = add_mset d (mset (candidates ?x))"
      by (rule pq_push_mset)
    have st: "set (pq_push DerivationOrderer (candidates ?x) d) = insert d (set (candidates ?x))"
      using arg_cong[OF ms, of set_mset] by simp
    have fresh: "dkey d \<notin> set (map dkey (kBestList ?x @ candidates ?x))"
      using False find vok by (simp add: vertex_ok_def)
    have msk: "mset (map dkey (kBestList ?x @ pq_push DerivationOrderer (candidates ?x) d))
             = add_mset (dkey d) (mset (map dkey (kBestList ?x @ candidates ?x)))"
      using arg_cong[OF ms, of "image_mset dkey"] by simp
    have dist: "distinct (map dkey (kBestList ?x @ pq_push DerivationOrderer (candidates ?x) d))"
      using mset_distinct_add[OF msk _ fresh] vok by (simp add: vertex_ok_def)
    have dok: "deriv_ok g m v d" using c[OF Some] by auto
    have ord: "ordered_ok ?x'" if fin: "finite_scores g"
    proof -
      have o: "ordered_ok ?x" using vok fin by (simp add: vertex_ok_def)
      have f: "is_finite (score d)" and le: "\<forall>b \<in> set (kBestList ?x). rscore d \<le> rscore b"
        using c[OF Some] fin by auto
      show ?thesis using ordered_push[OF o f le] .
    qed
    have "vertex_ok hf g ?m' w" for w
    proof (cases "w = v")
      case False
      then show ?thesis using vertex_ok_grows[OF _ g state_okD[OF ok]] by simp
    next
      case True
      show ?thesis unfolding True vertex_ok_def
      proof (intro conjI)
        show "\<forall>d \<in> set (kBestList (vx ?m' v) @ candidates (vx ?m' v)). deriv_ok g ?m' v d"
          using vok dok st by (auto simp: vertex_ok_def intro: deriv_ok_grows[OF g])
        show "distinct (map dkey (kBestList (vx ?m' v) @ candidates (vx ?m' v)))"
          using dist by simp
        show "set (map dkey (map snd (seen (vx ?m' v))))
              = set (map dkey (kBestList (vx ?m' v) @ candidates (vx ?m' v)))"
          using vok st by (auto simp: vertex_ok_def)
        show "distinct (map dkey (map snd (seen (vx ?m' v))))"
          using vok fresh by (auto simp: vertex_ok_def)
        show "finite_scores g \<longrightarrow> ordered_ok (vx ?m' v)"
          using ord by simp
      qed (use vok in \<open>auto simp: vertex_ok_def\<close>)
    qed
    then have "state_ok hf g ?m'" using hc by (simp add: state_ok_def)
    then show ?thesis by (simp add: m')
  qed
qed

lemma pop_append_ok:
  assumes ok: "state_ok hf g m" and ne: "candidates (vx m v) \<noteq> []" and vis: "visited (vx m v)"
  defines "m1 \<equiv> m(v \<mapsto> (vx m v)\<lparr>candidates := pq_pop DerivationOrderer (candidates (vx m v)),
                                  kBestList := kBestList (vx m v) @ [pq_top (candidates (vx m v))]\<rparr>)"
  shows "state_ok hf g m1 \<and> grows m m1 \<and> untouched_from (Suc v) m m1"
proof -
  let ?x = "vx m v"
  let ?d = "pq_top (candidates ?x)"
  let ?c' = "pq_pop DerivationOrderer (candidates ?x)"
  have vok: "vertex_ok hf g m v" using ok by (rule state_okD)
  have hc: "hash_consistent hf" using ok by (rule state_ok_hc)
  have g: "grows m m1" by (simp add: grows_def m1_def)
  have u: "untouched_from (Suc v) m m1" by (simp add: untouched_from_def m1_def)
  have ms0: "add_mset ?d (mset ?c') = mset (candidates ?x)"
    using pq_pop_mset[OF ne] .
  have ms: "mset (?d # ?c') = mset (candidates ?x)" using ms0 by simp
  have msk: "mset (map dkey ((kBestList ?x @ [?d]) @ ?c')) = mset (map dkey (kBestList ?x @ candidates ?x))"
    using arg_cong[OF ms0, of "image_mset dkey"] by simp
  have seteq: "set ((kBestList ?x @ [?d]) @ ?c') = set (kBestList ?x @ candidates ?x)"
    using mset_eq_setD[OF ms] by auto
  have "vertex_ok hf g m1 w" for w
  proof (cases "w = v")
    case False
    then show ?thesis using vertex_ok_grows[OF _ g state_okD[OF ok]] by (simp add: m1_def)
  next
    case True
    have x1: "vx m1 v = ?x\<lparr>candidates := ?c', kBestList := kBestList ?x @ [?d]\<rparr>"
      by (simp add: m1_def)
    show ?thesis unfolding True vertex_ok_def x1
    proof (intro conjI)
      show "finite_scores g \<longrightarrow> ordered_ok (?x\<lparr>candidates := ?c', kBestList := kBestList ?x @ [?d]\<rparr>)"
        using vok ordered_pop[OF _ ne] by (simp add: vertex_ok_def)
      show "distinct (map dkey (kBestList (?x\<lparr>candidates := ?c', kBestList := kBestList ?x @ [?d]\<rparr>)
              @ candidates (?x\<lparr>candidates := ?c', kBestList := kBestList ?x @ [?d]\<rparr>)))"
        using mset_eq_imp_distinct_iff[OF msk] vok by (simp add: vertex_ok_def)
      show "set (map dkey (map snd (seen (?x\<lparr>candidates := ?c', kBestList := kBestList ?x @ [?d]\<rparr>))))
            = set (map dkey (kBestList (?x\<lparr>candidates := ?c', kBestList := kBestList ?x @ [?d]\<rparr>)
                @ candidates (?x\<lparr>candidates := ?c', kBestList := kBestList ?x @ [?d]\<rparr>)))"
        using vok mset_eq_setD[OF msk] by (simp add: vertex_ok_def)
      show "\<forall>d \<in> set (kBestList (?x\<lparr>candidates := ?c', kBestList := kBestList ?x @ [?d]\<rparr>)
              @ candidates (?x\<lparr>candidates := ?c', kBestList := kBestList ?x @ [?d]\<rparr>)).
            deriv_ok g m1 v d"
        using vok seteq by (auto simp: vertex_ok_def intro!: deriv_ok_grows[OF g])
    qed (use vok vis in \<open>auto simp: vertex_ok_def\<close>)
  qed
  then have "state_ok hf g m1" using hc by (simp add: state_ok_def)
  then show ?thesis using g u by simp
qed

lemma keeps_all:
  "keeps_LazyKthBest hf g v k m" "keeps_GetCandidates hf g v hs m" "keeps_ensure_best hf g v us m" "keeps_loop hf g v k n m"
  "keeps_LazyNext hf g v d k i m"
proof (induct hf g v k m and hf g v hs m and hf g v us m and hf g v k n m and hf g v d k i m
    rule: LazyKthBest_GetCandidates_edges_ensure_best_LazyKthBest_loop_LazyNext_from.induct)
  case (1 hf g v k m)
  show ?case unfolding keeps_LazyKthBest_def
  proof (intro allI impI)
  fix m' assume ok: "state_ok hf g m" and eq: "LazyKthBest hf g v k m = Inr m'"
  show "state_ok hf g m' \<and> grows m m' \<and> untouched_from (Suc v) m m'"
  proof (cases "visited (vx m v)")
    case True
    with eq have "LazyKthBest_loop hf g v k (Suc k - length (kBestList (vx m v))) m = Inr m'"
      by (subst (asm) LazyKthBest.simps) simp
    from "1.hyps"(1)[OF True, unfolded keeps_loop_def, rule_format, OF ok True this] show ?thesis .
  next
    case False
    let ?x = "\<lambda>b. b(v \<mapsto> (vx b v)\<lparr>visited := True\<rparr>)"
    have hv: "hypothesis (vx m v) = v" using state_okD[OF ok, of v] by (simp add: vertex_ok_def)
    from eq False obtain b where
      gc: "GetCandidates_edges hf g v (incoming g (hypothesis (vx m v))) m = Inr b" and
      lp: "LazyKthBest_loop hf g v k (Suc k - length (kBestList (vx (?x b) v))) (?x b) = Inr m'"
      by (subst (asm) LazyKthBest.simps) (auto simp: Let_def split: sum.splits)
    from "1.hyps"(2)[OF False, unfolded keeps_GetCandidates_def, rule_format, OF ok False _ gc] hv
    have b: "state_ok hf g b" "grows m b" "untouched_from (Suc v) m b" by auto
    have x: "state_ok hf g (?x b)" using set_visited_ok[OF b(1)] .
    have gx: "grows b (?x b)" by (simp add: grows_def)
    have ux: "untouched_from (Suc v) b (?x b)" by (simp add: untouched_from_def)
    have vis: "visited (vx (?x b) v)" by simp
    from "1.hyps"(3)[OF False gc refl, unfolded keeps_loop_def, rule_format, OF x vis lp]
    have "state_ok hf g m'" "grows (?x b) m'" "untouched_from (Suc v) (?x b) m'" by auto
    then show ?thesis
      using grows_trans[OF b(2) grows_trans[OF gx]]
        untouched_from_trans[OF b(3) untouched_from_trans[OF ux]] by blast
  qed
  qed
next
  case (2 hf g v m)
  show ?case by (simp add: keeps_GetCandidates_def)
next
  case (3 hf g v h hs m)
  show ?case unfolding keeps_GetCandidates_def
  proof (intro allI impI)
  fix m' assume ok: "state_ok hf g m" and nv: "\<not> visited (vx m v)"
    and sub: "set (h # hs) \<subseteq> set (incoming g v)"
    and eq: "GetCandidates_edges hf g v (h # hs) m = Inr m'"
  let ?arc = "CreateEdge g h"
  from eq obtain b where
    eb: "ensure_best hf g v (antecedents (g h)) m = Inr b" and
    rest: "GetCandidates_edges hf g v hs (push_candidate hf v (Derivation_base g b ?arc) b) = Inr m'"
    by (auto split: sum.splits)
  from "3.hyps"(1)[unfolded keeps_ensure_best_def, rule_format, OF ok eb]
  have b: "state_ok hf g b" "grows m b" "untouched_from v m b" "\<forall>u \<in> set (antecedents (g h)). u < v"
    by auto
  have same: "vx b v = vx m v" using b(3) by (simp add: untouched_from_def)
  have emp: "kBestList (vx b v) = []"
    using state_okD[OF b(1), of v] nv same by (simp add: vertex_ok_def)
  let ?m1 = "push_candidate hf v (Derivation_base g b ?arc) b"
  have pc: "state_ok hf g ?m1 \<and> (\<forall>w. kBestList (vx ?m1 w) = kBestList (vx b w)) \<and>
        (\<forall>w. w \<noteq> v \<longrightarrow> vx ?m1 w = vx b w) \<and> visited (vx ?m1 v) = visited (vx b v)"
  proof (rule push_candidate_ok[OF b(1)])
    fix d assume db: "Derivation_base g b ?arc = Some d"
    then have mk: "make_derivation g b ?arc (replicate (length (tail ?arc)) 0) = Some d"
      by (simp add: Derivation_base_def)
    have "deriv_ok g b v d"
      by (rule make_derivation_deriv_ok[OF mk]) (use b(4) sub in \<open>simp_all add: CreateEdge_def\<close>)
    moreover have "is_finite (score d)" if fin: "finite_scores g"
      using make_derivation_finite[OF fin state_ok_fin(1)[OF b(1) fin] mk] by auto
    ultimately show "deriv_ok g b v d \<and>
        (finite_scores g \<longrightarrow> is_finite (score d) \<and> (\<forall>ba \<in> set (kBestList (vx b v)). rscore d \<le> rscore ba))"
      using emp by simp
  qed
  then have m1: "state_ok hf g ?m1" "grows b ?m1" "untouched_from (Suc v) b ?m1"
    "\<not> visited (vx ?m1 v)"
    using nv same by (auto simp: grows_def untouched_from_def)
  have sub': "set hs \<subseteq> set (incoming g v)" using sub by simp
  from "3.hyps"(2)[OF eb, unfolded keeps_GetCandidates_def, rule_format, OF m1(1) m1(4) sub' rest]
  have "state_ok hf g m'" "grows ?m1 m'" "untouched_from (Suc v) ?m1 m'" "\<not> visited (vx m' v)"
    by auto
  then show "state_ok hf g m' \<and> grows m m' \<and> untouched_from (Suc v) m m' \<and> \<not> visited (vx m' v)"
    using grows_trans[OF b(2) grows_trans[OF m1(2)]]
      untouched_from_trans[OF untouched_from_Suc[OF b(3)] untouched_from_trans[OF m1(3)]]
    by blast
  qed
next
  case (4 hf g v m)
  show ?case by (simp add: keeps_ensure_best_def)
next
  case (5 hf g v u us m)
  show ?case unfolding keeps_ensure_best_def
  proof (intro allI impI)
  fix m' assume ok: "state_ok hf g m" and eq: "ensure_best hf g v (u # us) m = Inr m'"
  from eq have uv: "u < v" by (auto split: if_splits)
  from eq uv obtain b where
    lk: "LazyKthBest hf g u 0 (snd (FindOrCreateVertex m u)) = Inr b" and
    rest: "ensure_best hf g v us b = Inr m'"
    by (auto split: sum.splits)
  from "5.hyps"(1)[OF uv, unfolded keeps_LazyKthBest_def, rule_format, OF state_ok_foc[OF ok] lk]
  have b: "state_ok hf g b" "grows (snd (FindOrCreateVertex m u)) b"
    "untouched_from (Suc u) (snd (FindOrCreateVertex m u)) b" by auto
  have gb: "grows m b" using grows_trans[OF grows_foc b(2)] .
  have ub: "untouched_from v m b"
    using untouched_from_trans[OF untouched_from_foc untouched_from_mono[OF b(3)]] uv by simp
  from "5.hyps"(2)[OF uv lk, unfolded keeps_ensure_best_def, rule_format, OF b(1) rest]
  have "state_ok hf g m'" "grows b m'" "untouched_from v b m'" "\<forall>u \<in> set us. u < v" by auto
  then show "state_ok hf g m' \<and> grows m m' \<and> untouched_from v m m' \<and> (\<forall>u \<in> set (u # us). u < v)"
    using grows_trans[OF gb] untouched_from_trans[OF ub] uv by auto
  qed
next
  case (6 hf g v k n m)
  show ?case unfolding keeps_loop_def
  proof (intro allI impI)
  fix m' assume ok: "state_ok hf g m" and vis: "visited (vx m v)"
    and eq: "LazyKthBest_loop hf g v k n m = Inr m'"
  show "state_ok hf g m' \<and> grows m m' \<and> untouched_from (Suc v) m m'"
  proof (cases "length (kBestList (vx m v)) \<le> k \<and> candidates (vx m v) \<noteq> []")
    case False
    with eq have "m' = m" by (subst (asm) LazyKthBest_loop.simps) auto
    then show ?thesis using ok by simp
  next
    case True
    let ?x = "vx m v"
    let ?d = "pq_top (candidates ?x)"
    let ?m1 = "m(v \<mapsto> ?x\<lparr>candidates := pq_pop DerivationOrderer (candidates ?x),
                           kBestList := kBestList ?x @ [?d]\<rparr>)"
    from eq True obtain n' b where n: "n = Suc n'" and
      ln: "LazyNext_from hf g v ?d k 0 ?m1 = Inr b" and
      lp: "LazyKthBest_loop hf g v k n' b = Inr m'"
      by (subst (asm) LazyKthBest_loop.simps) (auto simp: Let_def split: nat.splits sum.splits)
    from pop_append_ok[OF ok _ vis] True
    have m1: "state_ok hf g ?m1" "grows m ?m1" "untouched_from (Suc v) m ?m1" by auto
    have v1: "visited (vx ?m1 v)" "kBestList (vx ?m1 v) \<noteq> []" "?d = last (kBestList (vx ?m1 v))"
      using vis by auto
    from "6.hyps"(1)[OF True n refl refl refl, unfolded keeps_LazyNext_def, rule_format, OF m1(1) v1 ln]
    have b: "state_ok hf g b" "grows ?m1 b" "untouched_from (Suc v) ?m1 b" "visited (vx b v)"
      by auto
    from "6.hyps"(2)[OF True n refl refl refl ln, unfolded keeps_loop_def, rule_format, OF b(1) b(4) lp]
    have "state_ok hf g m'" "grows b m'" "untouched_from (Suc v) b m'" by auto
    then show ?thesis
      using grows_trans[OF m1(2) grows_trans[OF b(2)]]
        untouched_from_trans[OF m1(3) untouched_from_trans[OF b(3)]] by blast
  qed
  qed
next
  case (7 hf g v d k i m)
  show ?case unfolding keeps_LazyNext_def
  proof (intro allI impI)
  fix m' assume ok: "state_ok hf g m" and vis: "visited (vx m v)"
    and ne: "kBestList (vx m v) \<noteq> []" and dl: "d = last (kBestList (vx m v))"
    and eq: "LazyNext_from hf g v d k i m = Inr m'"
  show "state_ok hf g m' \<and> grows m m' \<and> untouched_from (Suc v) m m' \<and>
     kBestList (vx m' v) = kBestList (vx m v) \<and> visited (vx m' v)"
  proof (cases "i < length (backPointers d)")
    case False
    with eq have "m' = m" by (subst (asm) LazyNext_from.simps) auto
    then show ?thesis using ok vis by simp
  next
    case True
    let ?u = "tail (edge d) ! i"
    from eq True have gd: "i < length (tail (edge d)) \<and> ?u < v"
      by (subst (asm) LazyNext_from.simps) (auto split: if_splits)
    let ?m1 = "\<lambda>b. push_candidate hf v (Derivation_succ g b d i) b"
    from eq True gd obtain b where
      lk: "LazyKthBest hf g ?u (backPointers d ! i + 1) m = Inr b" and
      rest: "LazyNext_from hf g v d k (i + 1) (?m1 b) = Inr m'"
      by (subst (asm) LazyNext_from.simps) (auto split: sum.splits)
    from "7.hyps"(1)[OF True gd, unfolded keeps_LazyKthBest_def, rule_format, OF ok lk]
    have b: "state_ok hf g b" "grows m b" "untouched_from (Suc ?u) m b" by auto
    have same: "vx b v = vx m v" using b(3) gd by (simp add: untouched_from_def)
    have din: "d \<in> set (kBestList (vx b v))" using ne dl same by simp
    have dok: "deriv_ok g b v d" using state_okD[OF b(1), of v] din by (simp add: vertex_ok_def)
    have pc: "state_ok hf g (?m1 b) \<and> (\<forall>w. kBestList (vx (?m1 b) w) = kBestList (vx b w)) \<and>
        (\<forall>w. w \<noteq> v \<longrightarrow> vx (?m1 b) w = vx b w) \<and> visited (vx (?m1 b) v) = visited (vx b v)"
    proof (rule push_candidate_ok[OF b(1)])
      fix d' assume s: "Derivation_succ g b d i = Some d'"
      from Derivation_succ_ok[OF dok s] have okd': "deriv_ok g b v d'" by simp
      have "is_finite (score d') \<and> (\<forall>ba \<in> set (kBestList (vx b v)). rscore d' \<le> rscore ba)"
        if fin: "finite_scores g"
      proof -
        from Derivation_succ_le[OF fin state_ok_fin[OF b(1) fin] dok s]
        have f: "is_finite (score d')" and le: "rscore d' \<le> rscore d" by auto
        have sb: "sorted_wrt (\<lambda>a b. rscore b \<le> rscore a) (kBestList (vx b v))"
          using state_ok_fin(2)[OF b(1) fin] by simp
        have "\<forall>ba \<in> set (kBestList (vx b v)). rscore d \<le> rscore ba"
          using sorted_real_last[OF sb] dl same by simp
        then show ?thesis using f le by force
      qed
      then show "deriv_ok g b v d' \<and>
          (finite_scores g \<longrightarrow> is_finite (score d') \<and>
             (\<forall>ba \<in> set (kBestList (vx b v)). rscore d' \<le> rscore ba))"
        using okd' by simp
    qed
    then have m1: "state_ok hf g (?m1 b)" "grows b (?m1 b)" "untouched_from (Suc v) b (?m1 b)"
      "visited (vx (?m1 b) v)" "kBestList (vx (?m1 b) v) = kBestList (vx m v)"
      using vis same by (auto simp: grows_def untouched_from_def)
    from "7.hyps"(2)[OF True gd lk, unfolded keeps_LazyNext_def, rule_format, OF m1(1) m1(4) _ _ rest] m1(5) ne dl
    have "state_ok hf g m'" "grows (?m1 b) m'" "untouched_from (Suc v) (?m1 b) m'"
      "kBestList (vx m' v) = kBestList (vx m v)" "visited (vx m' v)" by auto
    then show ?thesis
      using grows_trans[OF b(2) grows_trans[OF m1(2)]]
        untouched_from_trans[OF untouched_from_mono[OF b(3)] untouched_from_trans[OF m1(3)]] gd
      by auto
  qed
  qed
qed

lemma LazyKthBest_safe:
  "state_ok hf g m \<Longrightarrow> LazyKthBest hf g v k m = Inr m' \<Longrightarrow>
   state_ok hf g m' \<and> grows m m' \<and> untouched_from (Suc v) m m'"
  using keeps_all(1)[of hf g v k m] unfolding keeps_LazyKthBest_def by blast

lemma vertex_ok_Vertex_ctor: "vx m v = Vertex_ctor v \<Longrightarrow> vertex_ok hf g m v"
  by (simp add: vertex_ok_def Vertex_ctor_def ordered_ok_def)

lemma vx_empty [simp]: "vx Map.empty v = Vertex_ctor v"
  by (simp add: vx_def FindOrCreateVertex_def)

lemma state_ok_empty: "hash_consistent hf \<Longrightarrow> state_ok hf g Map.empty"
  by (simp add: state_ok_def vertex_ok_Vertex_ctor)

lemma vx_create_roots [simp]: "vx (create_roots m rs) w = vx m w"
  by (induction rs arbitrary: m) simp_all

lemma state_ok_create_roots: "state_ok hf g m \<Longrightarrow> state_ok hf g (create_roots m rs)"
  by (rule state_ok_cong) simp_all

lemma seed_frontier_safe:
  "state_ok hf g m \<Longrightarrow> seed_frontier hf g rs i m fr = Inr (m', fr') \<Longrightarrow>
   state_ok hf g m' \<and> grows m m'"
proof (induction rs arbitrary: i m fr)
  case Nil
  then show ?case by simp
next
  case (Cons r rs)
  from Cons.prems(2) obtain m1 fr1 where
    lk: "LazyKthBest hf g r 0 m = Inr m1" and
    rest: "seed_frontier hf g rs (i + 1) m1 fr1 = Inr (m', fr')"
    by (auto split: sum.splits)
  from LazyKthBest_safe[OF Cons.prems(1) lk] have m1: "state_ok hf g m1" "grows m m1" by auto
  from Cons.IH[OF m1(1) rest] show ?case using grows_trans[OF m1(2)] by blast
qed

lemma merge_loop_safe:
  "state_ok hf g m \<Longrightarrow> merge_loop hf g roots n m fr out = Inr (m', out') \<Longrightarrow>
   state_ok hf g m' \<and> grows m m'"
proof (induction n arbitrary: m fr out)
  case 0
  then show ?case by simp
next
  case (Suc n)
  show ?case
  proof (cases "fr = []")
    case True
    with Suc.prems show ?thesis by simp
  next
    case False
    obtain s i rank where top: "pq_top fr = (s, i, rank)" by (cases "pq_top fr") auto
    from Suc.prems(2) False top obtain m1 fr1 out1 where
      lk: "LazyKthBest hf g (roots ! i) (rank + 1) m = Inr m1" and
      rest: "merge_loop hf g roots n m1 fr1 out1 = Inr (m', out')"
      by (auto simp: Let_def split: sum.splits)
    from LazyKthBest_safe[OF Suc.prems(1) lk] have m1: "state_ok hf g m1" "grows m m1" by auto
    from Suc.IH[OF m1(1) rest] show ?thesis using grows_trans[OF m1(2)] by blast
  qed
qed

lemma Extract_run_safe:
  assumes "hash_consistent hf" and "Extract_run hf g roots k = Inr (m', out)"
  shows "state_ok hf g m'"
proof -
  have s0: "state_ok hf g (create_roots Map.empty roots)"
    using state_ok_create_roots[OF state_ok_empty[OF assms(1)]] .
  from assms(2) obtain m1 fr where
    sd: "seed_frontier hf g roots 0 (create_roots Map.empty roots) [] = Inr (m1, fr)" and
    ml: "merge_loop hf g roots k m1 fr [] = Inr (m', out)"
    by (auto simp: Extract_run_def split: sum.splits)
  from seed_frontier_safe[OF s0 sd] have "state_ok hf g m1" by simp
  from merge_loop_safe[OF this ml] show ?thesis by simp
qed

lemma DerivationHasher_consistent: "hash_consistent (DerivationHasher a b c)"
  by (simp add: hash_consistent_def DerivationEqualityPred_iff DerivationHasher_def Let_def)

section \<open>Sorted, append-only k-best lists without duplicates\<close>

lemma extraction_step_keeps:
  assumes ok: "state_ok hf g m" and st: "extraction_step hf g m m'"
  shows "state_ok hf g m' \<and> grows m m'"
proof -
  note d = keeps_LazyKthBest_def keeps_GetCandidates_def keeps_ensure_best_def keeps_loop_def
    keeps_LazyNext_def
  from st show ?thesis unfolding extraction_step_def
  proof (elim disjE exE conjE, goal_cases)
    case (1 v k)
    then show ?case using keeps_all(1)[of hf g v k m] ok unfolding d by blast
  next
    case (2 v hs)
    then show ?case using keeps_all(2)[of hf g v hs m] ok unfolding d by blast
  next
    case (3 v us)
    then show ?case using keeps_all(3)[of hf g v us m] ok unfolding d by blast
  next
    case (4 v k n)
    then show ?case using keeps_all(4)[of hf g v k n m] ok unfolding d by blast
  next
    case (5 v k i)
    then show ?case
      using keeps_all(5)[of hf g v "last (kBestList (vx m v))" k i m] ok unfolding d by blast
  next
    case (6 rs j fr fr')
    then show ?case using seed_frontier_safe[OF ok] by blast
  next
    case (7 roots n fr out out')
    then show ?case using merge_loop_safe[OF ok] by blast
  qed
qed

lemma boost_hasher_consistent: "hash_consistent boost_hasher"
  by (simp add: boost_hasher_def DerivationHasher_consistent)

lemma Inr_projr: "\<not> isl x \<Longrightarrow> x = Inr (projr x)"
  by (cases x) auto

lemma finite_scores_example: "finite_scores example_graph"
  by (simp add: finite_scores_def example_graph_def hypo_def)



lemma example_run: "\<not> isl (LazyKthBest boost_hasher example_graph 1 1 Map.empty)"
  by code_simp

lemma example_extract: "\<not> isl (Extract_run boost_hasher example_graph [1] 2)"
  by code_simp


text \<open>
  C3. In a state with the invariant (every state of an extraction, see
  \<open>extraction_step_keeps\<close>), no two derivations of a vertex's k-best list, and no two of its
  \<^verbatim>\<open>seen\<close> set, have the same structural identity \<open>dkey\<close>, which is the identity
  \<^verbatim>\<open>DerivationEqualityPred\<close> decides; the derivations ever enqueued (those in the k-best list
  and those still in the queue) are pairwise different as well and are exactly the ones in
  \<^verbatim>\<open>seen\<close>; and pushing a candidate whose identity is in \<^verbatim>\<open>seen\<close> changes nothing. Every step
  of an extraction keeps the invariant, whatever the scores are. Two incoming hyperedges of
  a vertex with the same antecedents have different heads, so neither is a duplicate of the
  other: both are enqueued (the root of \<open>two_edges_graph\<close> in the example below).
\<close>

theorem no_duplicate_derivations:
  "(dkey d = dkey e \<longleftrightarrow> DerivationEqualityPred d e)
   \<and> (hash_consistent hf \<longrightarrow> state_ok hf g Map.empty)
   \<and> (state_ok hf g m \<longrightarrow>
        distinct (map dkey (kBestList (vx m w)))
        \<and> distinct (map dkey (map snd (seen (vx m w))))
        \<and> distinct (map dkey (kBestList (vx m w) @ candidates (vx m w)))
        \<and> set (map dkey (kBestList (vx m w) @ candidates (vx m w)))
            = set (map dkey (map snd (seen (vx m w))))
        \<and> (dkey d \<in> set (map dkey (map snd (seen (vx m w)))) \<longrightarrow>
             push_candidate hf w (Some d) m = m))
   \<and> (state_ok hf g m \<and> extraction_step hf g m m' \<longrightarrow> state_ok hf g m')
   \<and> (hash_consistent hf \<and> Extract_run hf g roots k = Inr (mf, out) \<longrightarrow> state_ok hf g mf)"
proof -
  have "push_candidate hf w (Some d) m = m"
    if "state_ok hf g m" "dkey d \<in> set (map dkey (map snd (seen (vx m w))))"
  proof -
    have v: "vertex_ok hf g m w" using that(1) by (rule state_okD)
    then have "map fst (seen (vx m w)) = map hf (map snd (seen (vx m w)))"
      by (simp add: vertex_ok_def)
    from DerivationSet_find_iff[OF state_ok_hc[OF that(1)] this, of d] that(2)
    show ?thesis by (simp add: push_candidate_def DerivationSet_insert_def)
  qed
  moreover have "distinct (map dkey (kBestList (vx m w)))
        \<and> distinct (map dkey (map snd (seen (vx m w))))
        \<and> distinct (map dkey (kBestList (vx m w) @ candidates (vx m w)))
        \<and> set (map dkey (kBestList (vx m w) @ candidates (vx m w)))
            = set (map dkey (map snd (seen (vx m w))))" if "state_ok hf g m"
    using state_okD[OF that, of w] by (auto simp: vertex_ok_def)
  ultimately show ?thesis
    using extraction_step_keeps[of hf g m m'] Extract_run_safe[of hf g roots k mf out]
      state_ok_empty[of hf g] dkey_eq_iff[of d e]
    by blast
qed

theorem no_duplicate_derivations_witness:
  "hash_consistent boost_hasher
   \<and> state_ok boost_hasher two_edges_graph Map.empty
   \<and> extraction_step boost_hasher two_edges_graph Map.empty
        (projr (LazyKthBest boost_hasher two_edges_graph 1 0 Map.empty))
   \<and> state_ok boost_hasher two_edges_graph (projr (LazyKthBest boost_hasher two_edges_graph 1 0 Map.empty))
   \<and> map dkey (kBestList (vx (projr (LazyKthBest boost_hasher two_edges_graph 1 0 Map.empty)) 1)
       @ candidates (vx (projr (LazyKthBest boost_hasher two_edges_graph 1 0 Map.empty)) 1))
      = [(1, [], []), (2, [], [])]
   \<and> map dkey (map snd (seen (vx (projr (LazyKthBest boost_hasher two_edges_graph 1 0 Map.empty)) 1)))
      = [(1, [], []), (2, [], [])]
   \<and> push_candidate boost_hasher 1
        (Some \<lparr>edge = \<lparr>head = 2, tail = []\<rparr>, backPointers = [], scoreBreakdown = 9, score = Finite 9\<rparr>)
        (projr (LazyKthBest boost_hasher two_edges_graph 1 0 Map.empty))
      = projr (LazyKthBest boost_hasher two_edges_graph 1 0 Map.empty)
   \<and> Extract_run boost_hasher two_edges_graph [1] 1
        = Inr (fst (projr (Extract_run boost_hasher two_edges_graph [1] 1)),
               snd (projr (Extract_run boost_hasher two_edges_graph [1] 1)))
   \<and> state_ok boost_hasher two_edges_graph (fst (projr (Extract_run boost_hasher two_edges_graph [1] 1)))"
proof -
  let ?r = "LazyKthBest boost_hasher two_edges_graph 1 0 Map.empty"
  let ?e = "Extract_run boost_hasher two_edges_graph [1] 1"
  let ?d = "\<lparr>edge = \<lparr>head = 2, tail = []\<rparr>, backPointers = [], scoreBreakdown = 9::real, score = Finite 9\<rparr>"
  have "\<not> isl ?r" by code_simp
  then have r: "?r = Inr (projr ?r)" by (rule Inr_projr)
  have "\<not> isl ?e" by code_simp
  then have e: "?e = Inr (fst (projr ?e), snd (projr ?e))" using Inr_projr[of ?e] by simp
  have st: "extraction_step boost_hasher two_edges_graph Map.empty (projr ?r)"
    unfolding extraction_step_def by (intro disjI1 exI) (rule r)
  have k1: "map dkey (kBestList (vx (projr ?r) 1) @ candidates (vx (projr ?r) 1))
      = [(1, [], []), (2, [], [])]" by code_simp
  have k2: "map dkey (map snd (seen (vx (projr ?r) 1))) = [(1, [], []), (2, [], [])]"
    by code_simp
  have k3: "dkey ?d = (2, [], [])" by (simp add: dkey_def)
  have ok: "state_ok boost_hasher two_edges_graph (projr ?r)"
    using extraction_step_keeps[OF state_ok_empty[OF boost_hasher_consistent] st] by simp
  note T = no_duplicate_derivations[of ?d ?d boost_hasher two_edges_graph "projr ?r" 1 Map.empty
        "[1]" 1 "fst (projr ?e)" "snd (projr ?e)"]
  have ok0: "state_ok boost_hasher two_edges_graph Map.empty"
    using T boost_hasher_consistent by blast
  have okE: "state_ok boost_hasher two_edges_graph (fst (projr ?e))"
    using T boost_hasher_consistent e by blast
  have mem: "dkey ?d \<in> set (map dkey (map snd (seen (vx (projr ?r) 1))))"
    using k2 k3 by simp
  have pc: "push_candidate boost_hasher 1 (Some ?d) (projr ?r) = projr ?r"
    using T ok mem by blast
  show ?thesis
    by (intro conjI) (rule boost_hasher_consistent ok0 st ok k1 k2 pc e okE)+
qed

section \<open>Completeness: the extraction finds every derivation\<close>

lemma rank_vectors_Nil: "rank_vectors [] = {[]}"
  by (auto simp: rank_vectors_def)

lemma rank_vectors_Cons:
  "rank_vectors (a # c) = (\<lambda>(x, bp). x # bp) ` ({..<a} \<times> rank_vectors c)"
proof (intro set_eqI iffI)
  fix bp assume "bp \<in> rank_vectors (a # c)"
  then have l: "length bp = Suc (length c)" and b: "\<forall>i < Suc (length c). bp ! i < (a # c) ! i"
    by (auto simp: rank_vectors_def)
  then obtain x bs where bp: "bp = x # bs" by (cases bp) auto
  have "x < a" using b bp by (auto dest: spec[of _ 0])
  moreover have "bs \<in> rank_vectors c"
    using l b bp by (auto simp: rank_vectors_def dest: spec[of _ "Suc _"])
  ultimately show "bp \<in> (\<lambda>(x, bp). x # bp) ` ({..<a} \<times> rank_vectors c)"
    using bp by auto
next
  fix bp assume "bp \<in> (\<lambda>(x, bp). x # bp) ` ({..<a} \<times> rank_vectors c)"
  then obtain x bs where "bp = x # bs" "x < a" "bs \<in> rank_vectors c" by auto
  then show "bp \<in> rank_vectors (a # c)"
    by (auto simp: rank_vectors_def nth_Cons split: nat.splits)
qed

lemma finite_rank_vectors: "finite (rank_vectors c)"
  by (induction c) (simp_all add: rank_vectors_Nil rank_vectors_Cons)

lemma card_rank_vectors: "card (rank_vectors c) = prod_list c"
proof (induction c)
  case Nil
  show ?case by (simp add: rank_vectors_Nil)
next
  case (Cons a c)
  have "inj_on (\<lambda>(x, bp). x # bp) ({..<a} \<times> rank_vectors c)"
    by (auto simp: inj_on_def)
  then have "card (rank_vectors (a # c)) = card ({..<a} \<times> rank_vectors c)"
    by (simp add: rank_vectors_Cons card_image)
  then show ?case using Cons.IH by (simp add: card_cartesian_product)
qed

lemma derivation_keys_UN:
  "derivation_keys g v =
     (\<Union>h \<in> set (incoming g v).
        (\<lambda>bp. (h, antecedents (g h), bp)) `
          rank_vectors (map (\<lambda>u. if u < v then num_derivations g u else 0) (antecedents (g h))))"
  by (auto simp: derivation_keys_def)

lemma finite_derivation_keys: "finite (derivation_keys g v)"
  unfolding derivation_keys_UN by (intro finite_UN_I finite_imageI finite_rank_vectors) simp

lemma card_derivation_keys: "card (derivation_keys g v) = num_derivations g v"
proof -
  let ?H = "set (incoming g v)"
  let ?c = "\<lambda>h. map (\<lambda>u. if u < v then num_derivations g u else 0) (antecedents (g h))"
  let ?A = "\<lambda>h. (\<lambda>bp. (h, antecedents (g h), bp)) ` rank_vectors (?c h)"
  have "card (\<Union>h \<in> ?H. ?A h) = (\<Sum>h \<in> ?H. card (?A h))"
    by (rule card_UN_disjoint) (auto intro: finite_rank_vectors)
  also have "\<dots> = (\<Sum>h \<in> ?H. prod_list (?c h))"
    by (intro sum.cong refl) (simp add: card_image inj_on_def card_rank_vectors)
  also have "\<dots> = num_derivations g v" by (subst num_derivations.simps) simp
  finally show ?thesis by (simp add: derivation_keys_UN)
qed

lemma child_derivations_ranks:
  "child_derivations m us rs = Some ds \<Longrightarrow> i < length us \<Longrightarrow>
   rs ! i < length (kBestList (vx m (us ! i)))"
proof (induction m us rs arbitrary: ds i rule: child_derivations.induct)
  case (2 m u us r rs)
  then show ?case by (cases i) (auto split: if_splits option.splits)
qed simp_all

lemma child_derivations_exists:
  "length us = length rs \<Longrightarrow> \<forall>i < length us. rs ! i < length (kBestList (vx m (us ! i))) \<Longrightarrow>
   \<exists>ds. child_derivations m us rs = Some ds"
proof (induction m us rs rule: child_derivations.induct)
  case (1 m)
  then show ?case by simp
next
  case (2 m u us r rs)
  have r: "r < length (kBestList (vx m u))" using "2.prems"(2) by (auto dest: spec[of _ 0])
  have "\<forall>i < length us. rs ! i < length (kBestList (vx m (us ! i)))"
    using "2.prems"(2) by (auto dest: spec[of _ "Suc _"])
  with "2.IH"[OF r] "2.prems"(1) r show ?case by auto
qed simp_all

lemma deriv_ok_parts:
  assumes "deriv_ok g m v d"
  shows "head (edge d) \<in> set (incoming g v)" and "\<forall>u \<in> set (tail (edge d)). u < v"
    and "tail (edge d) = antecedents (g (head (edge d)))"
    and "length (backPointers d) = length (tail (edge d))"
    and "\<forall>i < length (tail (edge d)).
           backPointers d ! i < length (kBestList (vx m (tail (edge d) ! i)))"
proof -
  from assms have h: "head (edge d) \<in> set (incoming g v)" and t: "\<forall>u \<in> set (tail (edge d)). u < v"
    and ce: "edge d = CreateEdge g (head (edge d))"
    and mk: "make_derivation g m (edge d) (backPointers d) = Some d"
    by (auto simp: deriv_ok_def)
  show "head (edge d) \<in> set (incoming g v)" by (rule h)
  show "\<forall>u \<in> set (tail (edge d)). u < v" by (rule t)
  from make_derivation_Some[OF mk] obtain ds where
    cd: "child_derivations m (tail (edge d)) (backPointers d) = Some ds" by blast
  show "tail (edge d) = antecedents (g (head (edge d)))"
    using arg_cong[OF ce, of tail] by (simp add: CreateEdge_def)
  show "length (backPointers d) = length (tail (edge d))"
    using child_derivations_length[OF cd] by simp
  show "\<forall>i < length (tail (edge d)).
           backPointers d ! i < length (kBestList (vx m (tail (edge d) ! i)))"
    using child_derivations_ranks[OF cd] by blast
qed

text \<open>Soundness: a k-best list holds derivations of its vertex, so it is no longer than their number.\<close>

lemma kBestList_bounded:
  assumes ok: "state_ok hf g m"
  shows "set (map dkey (kBestList (vx m v) @ candidates (vx m v))) \<subseteq> derivation_keys g v
         \<and> length (kBestList (vx m v)) \<le> num_derivations g v"
proof (induction v rule: less_induct)
  case (less v)
  let ?ds = "kBestList (vx m v) @ candidates (vx m v)"
  have vok: "vertex_ok hf g m v" using ok by (rule state_okD)
  have sub: "set (map dkey ?ds) \<subseteq> derivation_keys g v"
  proof
    fix key assume "key \<in> set (map dkey ?ds)"
    then obtain d where d: "d \<in> set ?ds" and key: "key = dkey d" by auto
    have dok: "deriv_ok g m v d" using vok d by (simp add: vertex_ok_def)
    note p = deriv_ok_parts[OF dok]
    have "backPointers d \<in> rank_vectors
            (map (\<lambda>u. if u < v then num_derivations g u else 0) (tail (edge d)))"
      unfolding rank_vectors_def
    proof (intro CollectI conjI allI impI)
      show "length (backPointers d) = length (map (\<lambda>u. if u < v then num_derivations g u else 0) (tail (edge d)))"
        using p(4) by simp
      fix i assume "i < length (map (\<lambda>u. if u < v then num_derivations g u else 0) (tail (edge d)))"
      then have i: "i < length (tail (edge d))" by simp
      then have uv: "tail (edge d) ! i < v" using p(2) by simp
      have "backPointers d ! i < length (kBestList (vx m (tail (edge d) ! i)))" using p(5) i by simp
      also have "\<dots> \<le> num_derivations g (tail (edge d) ! i)" using less.IH[OF uv] by simp
      finally show "backPointers d ! i < map (\<lambda>u. if u < v then num_derivations g u else 0) (tail (edge d)) ! i"
        using i uv by simp
    qed
    then have "backPointers d \<in> rank_vectors
            (map (\<lambda>u. if u < v then num_derivations g u else 0) (antecedents (g (head (edge d)))))"
      using p(3) by simp
    then have "(head (edge d), antecedents (g (head (edge d))), backPointers d) \<in> derivation_keys g v"
      using p(1) unfolding derivation_keys_def by blast
    then show "key \<in> derivation_keys g v"
      using key p(3) by (simp add: dkey_def)
  qed
  have "distinct (map dkey (kBestList (vx m v)))" using vok by (simp add: vertex_ok_def)
  then have "length (kBestList (vx m v)) = card (set (map dkey (kBestList (vx m v))))"
    using distinct_card[of "map dkey (kBestList (vx m v))"] by simp
  also have "\<dots> \<le> card (derivation_keys g v)"
    using sub by (intro card_mono finite_derivation_keys) auto
  finally show ?case using sub by (simp add: card_derivation_keys)
qed

lemma nat_list_zero_or_pos:
  "(\<forall>i < length (bp :: nat list). bp ! i = 0) \<or> (\<exists>i < length bp. 0 < bp ! i)"
  by auto

lemma all_zero_replicate: "\<forall>i < length (bp :: nat list). bp ! i = 0 \<Longrightarrow> bp = replicate (length bp) 0"
  by (auto simp: list_eq_iff_nth_eq)

lemma sum_list_update_dec:
  "i < length (bp :: nat list) \<Longrightarrow> 0 < bp ! i \<Longrightarrow> sum_list (bp[i := bp ! i - 1]) < sum_list bp"
proof (induction bp arbitrary: i)
  case Nil
  then show ?case by simp
next
  case (Cons a bp)
  then show ?case by (cases i) (auto simp: less_Suc_eq)
qed

text \<open>
  Completeness: a visited vertex that is closed and whose queue is empty has every one of its
  derivations in its k-best list.
\<close>

lemma exhausted_complete:
  assumes ok: "state_ok hf g m" and co: "complete_ok g v (vx m v)" and vis: "visited (vx m v)"
    and emp: "candidates (vx m v) = []"
  shows "num_derivations g v \<le> length (kBestList (vx m v))"
proof -
  let ?x = "vx m v"
  let ?K = "set (map dkey (kBestList ?x))"
  have vok: "vertex_ok hf g m v" using ok by (rule state_okD)
  have sk: "seenkeys ?x = ?K" using vok emp by (simp add: vertex_ok_def seenkeys_def)
  have main: "(h, antecedents (g h), bp) \<in> ?K"
    if hin: "h \<in> set (incoming g v)"
      and "bp \<in> rank_vectors (map (\<lambda>u. if u < v then num_derivations g u else 0) (antecedents (g h)))"
    for h bp
    using that(2)
  proof (induction "sum_list bp" arbitrary: bp rule: less_induct)
    case less
    define t where "t = antecedents (g h)"
    let ?c = "map (\<lambda>u. if u < v then num_derivations g u else 0) t"
    from less.prems have l: "length bp = length t" and b: "\<forall>i < length t. bp ! i < ?c ! i"
      by (auto simp: rank_vectors_def t_def)
    have tv: "\<forall>i < length t. t ! i < v \<and> bp ! i < num_derivations g (t ! i)"
    proof (intro allI impI)
      fix i assume i: "i < length t"
      with b have "bp ! i < (if t ! i < v then num_derivations g (t ! i) else 0)" by simp
      then show "t ! i < v \<and> bp ! i < num_derivations g (t ! i)" by (auto split: if_splits)
    qed
    from nat_list_zero_or_pos[of bp] have "(h, t, bp) \<in> ?K"
    proof
      assume z: "\<forall>i < length bp. bp ! i = 0"
      have "seeded g v ?x h" using co vis hin by (auto simp: complete_ok_def)
      moreover have "\<forall>u \<in> set t. u < v \<and> 0 < num_derivations g u"
      proof
        fix u assume "u \<in> set t"
        then obtain i where i: "i < length t" "t ! i = u" by (auto simp: in_set_conv_nth)
        with tv have "u < v" "bp ! i < num_derivations g u" by auto
        then show "u < v \<and> 0 < num_derivations g u" by auto
      qed
      ultimately have "(h, t, replicate (length t) 0) \<in> seenkeys ?x"
        by (simp add: seeded_def t_def)
      then show ?thesis using all_zero_replicate[OF z] l sk by simp
    next
      assume "\<exists>i < length bp. 0 < bp ! i"
      then obtain i where i: "i < length bp" "0 < bp ! i" by blast
      let ?bp' = "bp[i := bp ! i - 1]"
      have "?bp' \<in> rank_vectors ?c"
        unfolding rank_vectors_def
      proof (intro CollectI conjI allI impI)
        show "length ?bp' = length ?c" using l by simp
        fix j assume "j < length ?c"
        then have j: "j < length t" by simp
        with tv have "t ! j < v" "bp ! j < num_derivations g (t ! j)" by auto
        moreover have "?bp' ! j \<le> bp ! j" using j l i by (cases "j = i") auto
        ultimately show "?bp' ! j < ?c ! j" using j by simp
      qed
      then have "?bp' \<in> rank_vectors
          (map (\<lambda>u. if u < v then num_derivations g u else 0) (antecedents (g h)))"
        by (simp add: t_def)
      from less.hyps[OF sum_list_update_dec[OF i] this]
      obtain d where d: "d \<in> set (kBestList ?x)" and k: "dkey d = (h, t, ?bp')"
        by (auto simp: t_def)
      then have hd: "head (edge d) = h" and td: "tail (edge d) = t" and bd: "backPointers d = ?bp'"
        by (auto simp: dkey_def)
      have "closed_at g v ?x d i" using co vis d by (simp add: complete_ok_def)
      moreover have "backPointers d ! i + 1 < num_derivations g (tail (edge d) ! i)"
        using tv i l td bd by simp
      ultimately have "(h, t, ?bp'[i := ?bp' ! i + 1]) \<in> seenkeys ?x"
        using i hd td bd by (simp add: closed_at_def)
      moreover have "?bp'[i := ?bp' ! i + 1] = bp" using i by (simp add: list_update_same_conv)
      ultimately show ?thesis using sk by simp
    qed
    then show ?case by (simp add: t_def)
  qed
  then have "derivation_keys g v \<subseteq> ?K" unfolding derivation_keys_def by blast
  then have "card (derivation_keys g v) \<le> card ?K" by (intro card_mono) auto
  also have "\<dots> \<le> length (map dkey (kBestList ?x))" by (rule card_length)
  finally show ?thesis by (simp add: card_derivation_keys)
qed

lemma GetCandidates_safe:
  "state_ok hf g m \<Longrightarrow> \<not> visited (vx m v) \<Longrightarrow> set hs \<subseteq> set (incoming g v) \<Longrightarrow>
   GetCandidates_edges hf g v hs m = Inr m' \<Longrightarrow>
   state_ok hf g m' \<and> grows m m' \<and> untouched_from (Suc v) m m' \<and> \<not> visited (vx m' v)"
  using keeps_all(2)[of hf g v hs m] unfolding keeps_GetCandidates_def by blast

lemma ensure_best_safe:
  "state_ok hf g m \<Longrightarrow> ensure_best hf g v us m = Inr m' \<Longrightarrow>
   state_ok hf g m' \<and> grows m m' \<and> untouched_from v m m' \<and> (\<forall>u \<in> set us. u < v)"
  using keeps_all(3)[of hf g v us m] unfolding keeps_ensure_best_def by blast

lemma loop_safe:
  "state_ok hf g m \<Longrightarrow> visited (vx m v) \<Longrightarrow> LazyKthBest_loop hf g v k n m = Inr m' \<Longrightarrow>
   state_ok hf g m' \<and> grows m m' \<and> untouched_from (Suc v) m m'"
  using keeps_all(4)[of hf g v k n m] unfolding keeps_loop_def by blast

lemma LazyNext_safe:
  "state_ok hf g m \<Longrightarrow> visited (vx m v) \<Longrightarrow> kBestList (vx m v) \<noteq> [] \<Longrightarrow>
   d = last (kBestList (vx m v)) \<Longrightarrow> LazyNext_from hf g v d k i m = Inr m' \<Longrightarrow>
   state_ok hf g m' \<and> grows m m' \<and> untouched_from (Suc v) m m' \<and>
   kBestList (vx m' v) = kBestList (vx m v) \<and> visited (vx m' v)"
  using keeps_all(5)[of hf g v d k i m] unfolding keeps_LazyNext_def by blast

lemma grows_length: "grows m m' \<Longrightarrow> length (kBestList (vx m w)) \<le> length (kBestList (vx m' w))"
  by (simp add: grows_def prefix_length_le)

lemma done_upto_extend:
  "done_upto g b (Suc u) \<Longrightarrow> untouched_from (Suc u) m b \<Longrightarrow> done_upto g m v \<Longrightarrow> done_upto g b v"
  unfolding done_upto_def untouched_from_def
  by (metis not_less_eq_eq not_le)

lemma done_upto_same:
  "done_upto g m v \<Longrightarrow> \<forall>w. w \<noteq> v \<longrightarrow> vx m' w = vx m w \<Longrightarrow> done_upto g m' v"
  unfolding done_upto_def by auto

lemma done_upto_untouched:
  "done_upto g m v \<Longrightarrow> untouched_from v' m m' \<Longrightarrow> done_upto g m' v' \<Longrightarrow> done_upto g m' v"
  unfolding done_upto_def untouched_from_def
  by (metis not_le)

lemma done_upto_Suc: "done_upto g m (Suc v) \<longleftrightarrow> done_upto g m v \<and> complete_ok g v (vx m v)"
  by (auto simp: done_upto_def less_Suc_eq)

lemma done_upto_le: "done_upto g m v \<Longrightarrow> u \<le> v \<Longrightarrow> done_upto g m u"
  by (simp add: done_upto_def)

lemma push_candidate_seen:
  assumes ok: "state_ok hf g m"
  shows "seenkeys (vx m w) \<subseteq> seenkeys (vx (push_candidate hf v cand m) w)"
    and "cand = Some d \<Longrightarrow> dkey d \<in> seenkeys (vx (push_candidate hf v cand m) v)"
proof -
  have vok: "vertex_ok hf g m v" using ok by (rule state_okD)
  have hc: "hash_consistent hf" using ok by (rule state_ok_hc)
  have sh: "map fst (seen (vx m v)) = map hf (map snd (seen (vx m v)))"
    using vok by (simp add: vertex_ok_def)
  note find = DerivationSet_find_iff[OF hc sh]
  show "seenkeys (vx m w) \<subseteq> seenkeys (vx (push_candidate hf v cand m) w)"
    by (cases cand)
       (auto simp: push_candidate_def DerivationSet_insert_def Let_def seenkeys_def)
  show "dkey d \<in> seenkeys (vx (push_candidate hf v cand m) v)" if "cand = Some d"
    using that find[of d]
    by (auto simp: push_candidate_def DerivationSet_insert_def Let_def seenkeys_def)
qed

lemma seeded_mono: "seeded g v x h \<Longrightarrow> seenkeys x \<subseteq> seenkeys x' \<Longrightarrow> seeded g v x' h"
  by (auto simp: seeded_def)

lemma closed_at_mono: "closed_at g v x d i \<Longrightarrow> seenkeys x \<subseteq> seenkeys x' \<Longrightarrow> closed_at g v x' d i"
  by (auto simp: closed_at_def)

lemma Derivation_base_exists:
  assumes r0: "\<forall>u \<in> set (antecedents (g h)). 0 < length (kBestList (vx m u))"
  shows "\<exists>d. Derivation_base g m (CreateEdge g h) = Some d \<and>
             dkey d = (h, antecedents (g h), replicate (length (antecedents (g h))) 0)"
proof -
  let ?t = "antecedents (g h)"
  have "\<exists>ds. child_derivations m ?t (replicate (length ?t) 0) = Some ds"
    by (rule child_derivations_exists) (use r0 in auto)
  then obtain ds where ds: "child_derivations m ?t (replicate (length ?t) 0) = Some ds" by blast
  show ?thesis using ds
    by (simp add: Derivation_base_def make_derivation_def dkey_def CreateEdge_def)
qed

lemma Derivation_succ_exists:
  assumes ok: "deriv_ok g m v d" and i: "i < length (backPointers d)"
    and r: "backPointers d ! i + 1 < length (kBestList (vx m (tail (edge d) ! i)))"
  shows "\<exists>d'. Derivation_succ g m d i = Some d' \<and>
              dkey d' = (head (edge d), tail (edge d), (backPointers d)[i := backPointers d ! i + 1])"
proof -
  note p = deriv_ok_parts[OF ok]
  let ?bp' = "(backPointers d)[i := backPointers d ! i + 1]"
  have "\<exists>ds. child_derivations m (tail (edge d)) ?bp' = Some ds"
  proof (rule child_derivations_exists)
    show "length (tail (edge d)) = length ?bp'" using p(4) by simp
    show "\<forall>j < length (tail (edge d)). ?bp' ! j < length (kBestList (vx m (tail (edge d) ! j)))"
      using p(4) p(5) r i by (auto simp: nth_list_update)
  qed
  then obtain ds where "child_derivations m (tail (edge d)) ?bp' = Some ds" by blast
  then show ?thesis using i
    by (simp add: Derivation_succ_def make_derivation_def dkey_def)
qed

lemma push_base_ok:
  assumes ok: "state_ok hf g b" and emp: "kBestList (vx b v) = []"
    and hin: "h \<in> set (incoming g v)" and tv: "\<forall>u \<in> set (antecedents (g h)). u < v"
  defines "m1 \<equiv> push_candidate hf v (Derivation_base g b (CreateEdge g h)) b"
  shows "state_ok hf g m1 \<and> (\<forall>w. kBestList (vx m1 w) = kBestList (vx b w)) \<and>
         (\<forall>w. w \<noteq> v \<longrightarrow> vx m1 w = vx b w) \<and> visited (vx m1 v) = visited (vx b v)"
  unfolding m1_def
proof (rule push_candidate_ok[OF ok])
  fix d assume "Derivation_base g b (CreateEdge g h) = Some d"
  then have mk: "make_derivation g b (CreateEdge g h) (replicate (length (tail (CreateEdge g h))) 0) = Some d"
    by (simp add: Derivation_base_def)
  have "deriv_ok g b v d"
    by (rule make_derivation_deriv_ok[OF mk]) (use tv hin in \<open>simp_all add: CreateEdge_def\<close>)
  moreover have "is_finite (score d)" if fin: "finite_scores g"
    using make_derivation_finite[OF fin state_ok_fin(1)[OF ok fin] mk] by auto
  ultimately show "deriv_ok g b v d \<and>
      (finite_scores g \<longrightarrow> is_finite (score d) \<and> (\<forall>ba \<in> set (kBestList (vx b v)). rscore d \<le> rscore ba))"
    using emp by simp
qed

lemma push_succ_ok:
  fixes i :: nat
  assumes ok: "state_ok hf g b" and ne: "kBestList (vx b v) \<noteq> []"
    and dl: "d = last (kBestList (vx b v))"
  shows "state_ok hf g (push_candidate hf v (Derivation_succ g b d i) b) \<and>
         (\<forall>w. kBestList (vx (push_candidate hf v (Derivation_succ g b d i) b) w) = kBestList (vx b w)) \<and>
         (\<forall>w. w \<noteq> v \<longrightarrow> vx (push_candidate hf v (Derivation_succ g b d i) b) w = vx b w) \<and>
         visited (vx (push_candidate hf v (Derivation_succ g b d i) b) v) = visited (vx b v)"
proof (rule push_candidate_ok[OF ok])
  fix d' assume s: "Derivation_succ g b d i = Some d'"
  have din: "d \<in> set (kBestList (vx b v))" using ne dl by simp
  have dok: "deriv_ok g b v d" using state_okD[OF ok, of v] din by (simp add: vertex_ok_def)
  from Derivation_succ_ok[OF dok s] have okd': "deriv_ok g b v d'" by simp
  have "is_finite (score d') \<and> (\<forall>ba \<in> set (kBestList (vx b v)). rscore d' \<le> rscore ba)"
    if fin: "finite_scores g"
  proof -
    from Derivation_succ_le[OF fin state_ok_fin[OF ok fin] dok s]
    have f: "is_finite (score d')" and le: "rscore d' \<le> rscore d" by auto
    have sb: "sorted_wrt (\<lambda>a b. rscore b \<le> rscore a) (kBestList (vx b v))"
      using state_ok_fin(2)[OF ok fin] by simp
    have "\<forall>ba \<in> set (kBestList (vx b v)). rscore d \<le> rscore ba"
      using sorted_real_last[OF sb] dl by simp
    then show ?thesis using f le by force
  qed
  then show "deriv_ok g b v d' \<and>
      (finite_scores g \<longrightarrow> is_finite (score d') \<and>
         (\<forall>ba \<in> set (kBestList (vx b v)). rscore d' \<le> rscore ba))"
    using okd' by simp
qed

lemma done_upto_foc [simp]: "done_upto g (snd (FindOrCreateVertex m u)) n = done_upto g m n"
  by (simp add: done_upto_def)

lemma wf_hypergraphD:
  "wf_hypergraph g \<Longrightarrow> h \<in> set (incoming g v) \<Longrightarrow> \<forall>u \<in> set (antecedents (g h)). u < v"
  by (auto simp: wf_hypergraph_def)

lemma complete_all:
  "complete_LazyKthBest hf g v k m" "complete_GetCandidates hf g v hs m"
  "complete_ensure_best hf g v us m" "complete_loop hf g v k n m"
  "complete_LazyNext hf g v d k i m"
proof (induct hf g v k m and hf g v hs m and hf g v us m and hf g v k n m and hf g v d k i m
    rule: LazyKthBest_GetCandidates_edges_ensure_best_LazyKthBest_loop_LazyNext_from.induct)
  case (1 hf g v k m)
  show ?case unfolding complete_LazyKthBest_def
  proof (intro impI)
    assume A: "state_ok hf g m \<and> wf_hypergraph g \<and> done_upto g m (Suc v)"
    then have ok: "state_ok hf g m" and wf: "wf_hypergraph g" and dn: "done_upto g m (Suc v)"
      by auto
    show "\<exists>m'. LazyKthBest hf g v k m = Inr m' \<and> done_upto g m' (Suc v) \<and>
            min (Suc k) (num_derivations g v) \<le> length (kBestList (vx m' v))"
    proof (cases "visited (vx m v)")
      case True
      have eq: "LazyKthBest hf g v k m
                = LazyKthBest_loop hf g v k (Suc k - length (kBestList (vx m v))) m"
        using True by (subst LazyKthBest.simps) simp
      from "1.hyps"(1)[OF True, unfolded complete_loop_def] ok wf True dn
      show ?thesis by (simp add: eq)
    next
      case False
      have hyp: "hypothesis (vx m v) = v" using state_okD[OF ok, of v] by (simp add: vertex_ok_def)
      from "1.hyps"(2)[OF False, unfolded complete_GetCandidates_def] ok wf False dn hyp
      obtain b where gc: "GetCandidates_edges hf g v (incoming g (hypothesis (vx m v))) m = Inr b"
        and db: "done_upto g b v"
        and sd: "\<forall>h \<in> set (incoming g v). seeded g v (vx b v) h"
        by (auto simp: done_upto_Suc)
      from GetCandidates_safe[OF ok False _ gc] hyp
      have okb: "state_ok hf g b" and nvb: "\<not> visited (vx b v)" by auto
      have emp: "kBestList (vx b v) = []"
        using state_okD[OF okb, of v] nvb by (simp add: vertex_ok_def)
      let ?x = "b(v \<mapsto> (vx b v)\<lparr>visited := True\<rparr>)"
      have okx: "state_ok hf g ?x" using set_visited_ok[OF okb] .
      have dx: "done_upto g ?x (Suc v)"
        unfolding done_upto_Suc
      proof
        show "done_upto g ?x v" by (rule done_upto_same[OF db]) simp
        show "complete_ok g v (vx ?x v)"
          using sd emp by (simp add: complete_ok_def seeded_def seenkeys_def)
      qed
      from "1.hyps"(3)[OF False gc refl, unfolded complete_loop_def] okx wf dx
      obtain m' where lp: "LazyKthBest_loop hf g v k (Suc k - length (kBestList (vx ?x v))) ?x = Inr m'"
        and r: "done_upto g m' (Suc v)"
           "min (Suc k) (num_derivations g v) \<le> length (kBestList (vx m' v))"
        by auto
      have "LazyKthBest hf g v k m = Inr m'"
        using False gc lp by (subst LazyKthBest.simps) (simp add: Let_def)
      then show ?thesis using r by blast
    qed
  qed
next
  case (2 hf g v m)
  show ?case by (simp add: complete_GetCandidates_def)
next
  case (3 hf g v h hs m)
  show ?case unfolding complete_GetCandidates_def
  proof (intro impI)
    assume A: "state_ok hf g m \<and> wf_hypergraph g \<and> \<not> visited (vx m v) \<and> done_upto g m v \<and>
      set (h # hs) \<subseteq> set (incoming g v)"
    then have ok: "state_ok hf g m" and wf: "wf_hypergraph g" and nv: "\<not> visited (vx m v)"
      and dn: "done_upto g m v" and hin: "h \<in> set (incoming g v)"
      and sub: "set hs \<subseteq> set (incoming g v)"
      by auto
    let ?t = "antecedents (g h)"
    have tv: "\<forall>u \<in> set ?t. u < v" using wf_hypergraphD[OF wf hin] .
    from "3.hyps"(1)[unfolded complete_ensure_best_def] ok wf dn tv
    obtain b where eb: "ensure_best hf g v ?t m = Inr b" and db: "done_upto g b v"
      and r0: "\<forall>u \<in> set ?t. min 1 (num_derivations g u) \<le> length (kBestList (vx b u))"
      by auto
    from ensure_best_safe[OF ok eb]
    have okb: "state_ok hf g b" and ub: "untouched_from v m b" by auto
    have same: "vx b v = vx m v" using ub by (simp add: untouched_from_def)
    have emp: "kBestList (vx b v) = []"
      using state_okD[OF okb, of v] nv same by (simp add: vertex_ok_def)
    let ?m1 = "push_candidate hf v (Derivation_base g b (CreateEdge g h)) b"
    from push_base_ok[OF okb emp hin tv]
    have ok1: "state_ok hf g ?m1" and oth: "\<forall>w. w \<noteq> v \<longrightarrow> vx ?m1 w = vx b w"
      and v1: "\<not> visited (vx ?m1 v)"
      using nv same by auto
    have d1: "done_upto g ?m1 v" by (rule done_upto_same[OF db oth])
    have sk1: "seenkeys (vx b v) \<subseteq> seenkeys (vx ?m1 v)" by (rule push_candidate_seen(1)[OF okb])
    have sd1: "seeded g v (vx ?m1 v) h"
      unfolding seeded_def
    proof (intro impI)
      assume p: "\<forall>u \<in> set ?t. u < v \<and> 0 < num_derivations g u"
      have r1: "\<forall>u \<in> set ?t. 0 < length (kBestList (vx b u))"
      proof
        fix u assume u: "u \<in> set ?t"
        then have "0 < num_derivations g u" using p by blast
        then have "min 1 (num_derivations g u) = 1" by (simp add: min_def)
        then show "0 < length (kBestList (vx b u))" using r0 u by force
      qed
      from Derivation_base_exists[of g h b] r1 obtain d where
        d: "Derivation_base g b (CreateEdge g h) = Some d"
        and k: "dkey d = (h, ?t, replicate (length ?t) 0)" by blast
      from push_candidate_seen(2)[OF okb d, of v] k
      show "(h, ?t, replicate (length ?t) 0) \<in> seenkeys (vx ?m1 v)" by simp
    qed
    from "3.hyps"(2)[OF eb, unfolded complete_GetCandidates_def] ok1 wf v1 d1 sub
    obtain m' where rest: "GetCandidates_edges hf g v hs ?m1 = Inr m'"
      and dm: "done_upto g m' v" and sk: "seenkeys (vx ?m1 v) \<subseteq> seenkeys (vx m' v)"
      and sds: "\<forall>h \<in> set hs. seeded g v (vx m' v) h"
      by auto
    have "GetCandidates_edges hf g v (h # hs) m = Inr m'" using eb rest by simp
    moreover have "seenkeys (vx m v) \<subseteq> seenkeys (vx m' v)" using sk1 sk same by auto
    moreover have "seeded g v (vx m' v) h" using seeded_mono[OF sd1 sk] .
    ultimately show "\<exists>m'. GetCandidates_edges hf g v (h # hs) m = Inr m' \<and> done_upto g m' v \<and>
        seenkeys (vx m v) \<subseteq> seenkeys (vx m' v) \<and>
        (\<forall>h \<in> set (h # hs). seeded g v (vx m' v) h)"
      using dm sds by auto
  qed
next
  case (4 hf g v m)
  show ?case by (simp add: complete_ensure_best_def)
next
  case (5 hf g v u us m)
  show ?case unfolding complete_ensure_best_def
  proof (intro impI)
    assume A: "state_ok hf g m \<and> wf_hypergraph g \<and> done_upto g m v \<and> (\<forall>u \<in> set (u # us). u < v)"
    then have ok: "state_ok hf g m" and wf: "wf_hypergraph g" and dn: "done_upto g m v"
      and uv: "u < v" and usv: "\<forall>u \<in> set us. u < v" by auto
    let ?m0 = "snd (FindOrCreateVertex m u)"
    have ok0: "state_ok hf g ?m0" using state_ok_foc[OF ok] .
    have d0: "done_upto g ?m0 (Suc u)" using done_upto_le[OF dn, of "Suc u"] uv by simp
    from "5.hyps"(1)[OF uv, unfolded complete_LazyKthBest_def] ok0 wf d0
    obtain b where lk: "LazyKthBest hf g u 0 ?m0 = Inr b" and db: "done_upto g b (Suc u)"
      and r: "min (Suc 0) (num_derivations g u) \<le> length (kBestList (vx b u))" by auto
    from LazyKthBest_safe[OF ok0 lk]
    have okb: "state_ok hf g b" and ub: "untouched_from (Suc u) ?m0 b" by auto
    have dbv: "done_upto g b v" by (rule done_upto_extend[OF db ub]) (simp add: dn)
    from "5.hyps"(2)[OF uv lk, unfolded complete_ensure_best_def] okb wf dbv usv
    obtain m' where rest: "ensure_best hf g v us b = Inr m'" and dm: "done_upto g m' v"
      and rs: "\<forall>u \<in> set us. min 1 (num_derivations g u) \<le> length (kBestList (vx m' u))" by auto
    from ensure_best_safe[OF okb rest] have "grows b m'" by simp
    then have "min 1 (num_derivations g u) \<le> length (kBestList (vx m' u))"
      using r grows_length[of b m' u] by simp
    moreover have "ensure_best hf g v (u # us) m = Inr m'" using uv lk rest by simp
    ultimately show "\<exists>m'. ensure_best hf g v (u # us) m = Inr m' \<and> done_upto g m' v \<and>
        (\<forall>u \<in> set (u # us). min 1 (num_derivations g u) \<le> length (kBestList (vx m' u)))"
      using dm rs by auto
  qed
next
  case (6 hf g v k n m)
  show ?case unfolding complete_loop_def
  proof (intro impI)
    assume A: "state_ok hf g m \<and> wf_hypergraph g \<and> visited (vx m v) \<and> done_upto g m (Suc v) \<and>
      Suc k - length (kBestList (vx m v)) \<le> n"
    then have ok: "state_ok hf g m" and wf: "wf_hypergraph g" and vis: "visited (vx m v)"
      and dn: "done_upto g m (Suc v)" and bd: "Suc k - length (kBestList (vx m v)) \<le> n" by auto
    have co: "complete_ok g v (vx m v)" and dnv: "done_upto g m v"
      using dn by (auto simp: done_upto_Suc)
    show "\<exists>m'. LazyKthBest_loop hf g v k n m = Inr m' \<and> done_upto g m' (Suc v) \<and>
            min (Suc k) (num_derivations g v) \<le> length (kBestList (vx m' v))"
    proof (cases "length (kBestList (vx m v)) \<le> k \<and> candidates (vx m v) \<noteq> []")
      case False
      then have eq: "LazyKthBest_loop hf g v k n m = Inr m"
        by (subst LazyKthBest_loop.simps) auto
      have "min (Suc k) (num_derivations g v) \<le> length (kBestList (vx m v))"
      proof (cases "length (kBestList (vx m v)) \<le> k")
        case True
        with False have "candidates (vx m v) = []" by simp
        from exhausted_complete[OF ok co vis this] show ?thesis by simp
      next
        case False
        then show ?thesis by simp
      qed
      then show ?thesis using eq dn by blast
    next
      case True
      then obtain n' where n: "n = Suc n'" using bd by (cases n) auto
      let ?x = "vx m v"
      let ?d = "pq_top (candidates ?x)"
      let ?m1 = "m(v \<mapsto> ?x\<lparr>candidates := pq_pop DerivationOrderer (candidates ?x),
                             kBestList := kBestList ?x @ [?d]\<rparr>)"
      from pop_append_ok[OF ok _ vis] True
      have ok1: "state_ok hf g ?m1" by auto
      have v1: "visited (vx ?m1 v)" "kBestList (vx ?m1 v) \<noteq> []" "?d = last (kBestList (vx ?m1 v))"
        using vis by auto
      have d1: "done_upto g ?m1 v" by (rule done_upto_same[OF dnv]) simp
      have p1: "partial_ok g v (vx ?m1 v) 0"
        using co vis by (simp add: partial_ok_def complete_ok_def seeded_def closed_at_def seenkeys_def)
      from "6.hyps"(1)[OF True n refl refl refl, unfolded complete_LazyNext_def] ok1 wf v1 d1 p1
      obtain b where ln: "LazyNext_from hf g v ?d k 0 ?m1 = Inr b" and db: "done_upto g b (Suc v)"
        by auto
      from LazyNext_safe[OF ok1 v1 ln]
      have okb: "state_ok hf g b" and kb: "kBestList (vx b v) = kBestList (vx ?m1 v)"
        and vb: "visited (vx b v)" by auto
      have bd': "Suc k - length (kBestList (vx b v)) \<le> n'" using bd n kb by simp
      from "6.hyps"(2)[OF True n refl refl refl ln, unfolded complete_loop_def] okb wf vb db bd'
      obtain m' where lp: "LazyKthBest_loop hf g v k n' b = Inr m'"
        and r: "done_upto g m' (Suc v)"
          "min (Suc k) (num_derivations g v) \<le> length (kBestList (vx m' v))" by auto
      have "LazyKthBest_loop hf g v k n m = Inr m'"
        using True n ln lp by (subst LazyKthBest_loop.simps) (simp add: Let_def)
      then show ?thesis using r by blast
    qed
  qed
next
  case (7 hf g v d k i m)
  show ?case unfolding complete_LazyNext_def
  proof (intro impI)
    assume A: "state_ok hf g m \<and> wf_hypergraph g \<and> visited (vx m v) \<and> kBestList (vx m v) \<noteq> [] \<and>
      d = last (kBestList (vx m v)) \<and> done_upto g m v \<and> partial_ok g v (vx m v) i"
    then have ok: "state_ok hf g m" and wf: "wf_hypergraph g" and vis: "visited (vx m v)"
      and ne: "kBestList (vx m v) \<noteq> []" and dl: "d = last (kBestList (vx m v))"
      and dn: "done_upto g m v" and po: "partial_ok g v (vx m v) i" by auto
    show "\<exists>m'. LazyNext_from hf g v d k i m = Inr m' \<and> done_upto g m' (Suc v)"
    proof (cases "i < length (backPointers d)")
      case False
      note fin = False
      then have eq: "LazyNext_from hf g v d k i m = Inr m"
        by (subst LazyNext_from.simps) simp
      have "complete_ok g v (vx m v)"
        unfolding complete_ok_def
      proof (intro impI conjI ballI allI)
        fix h assume "h \<in> set (incoming g v)"
        then show "seeded g v (vx m v) h" using po by (simp add: partial_ok_def)
      next
        fix d' j assume d': "d' \<in> set (kBestList (vx m v))"
        have "kBestList (vx m v) = butlast (kBestList (vx m v)) @ [d]"
          using ne dl by simp
        then have "d' \<in> set (butlast (kBestList (vx m v))) \<or> d' = d"
          using d' by (metis Un_iff empty_iff empty_set set_ConsD set_append)
        then show "closed_at g v (vx m v) d' j"
        proof
          assume "d' \<in> set (butlast (kBestList (vx m v)))"
          then show ?thesis using po by (simp add: partial_ok_def)
        next
          assume e: "d' = d"
          show ?thesis
          proof (cases "j < i")
            case True
            then show ?thesis using po e dl by (simp add: partial_ok_def)
          next
            case False
            then show ?thesis using fin e by (simp add: closed_at_def)
          qed
        qed
      qed
      then show ?thesis using eq dn by (auto simp: done_upto_Suc)
    next
      case True
      let ?u = "tail (edge d) ! i"
      have din: "d \<in> set (kBestList (vx m v))" using ne dl by simp
      have dok: "deriv_ok g m v d" using state_okD[OF ok, of v] din by (simp add: vertex_ok_def)
      note p = deriv_ok_parts[OF dok]
      have gd: "i < length (tail (edge d)) \<and> ?u < v" using True p(2) p(4) by simp
      have du: "done_upto g m (Suc ?u)" using done_upto_le[OF dn, of "Suc ?u"] gd by simp
      from "7.hyps"(1)[OF True gd, unfolded complete_LazyKthBest_def] ok wf du
      obtain b where lk: "LazyKthBest hf g ?u (backPointers d ! i + 1) m = Inr b"
        and db: "done_upto g b (Suc ?u)"
        and r: "min (Suc (backPointers d ! i + 1)) (num_derivations g ?u)
                \<le> length (kBestList (vx b ?u))" by auto
      from LazyKthBest_safe[OF ok lk]
      have okb: "state_ok hf g b" and ub: "untouched_from (Suc ?u) m b" by auto
      have same: "vx b v = vx m v" using ub gd by (simp add: untouched_from_def)
      have dbv: "done_upto g b v" by (rule done_upto_extend[OF db ub dn])
      let ?m1 = "push_candidate hf v (Derivation_succ g b d i) b"
      from push_succ_ok[OF okb, of v d i] ne dl same
      have ok1: "state_ok hf g ?m1" and kk: "\<forall>w. kBestList (vx ?m1 w) = kBestList (vx b w)"
        and oth: "\<forall>w. w \<noteq> v \<longrightarrow> vx ?m1 w = vx b w"
        and v1: "visited (vx ?m1 v)" using vis by auto
      have k1: "kBestList (vx ?m1 v) = kBestList (vx m v)" using kk same by simp
      have sk1: "seenkeys (vx m v) \<subseteq> seenkeys (vx ?m1 v)"
        using push_candidate_seen(1)[OF okb, of v v] same by simp
      have dokb: "deriv_ok g b v d"
        using state_okD[OF okb, of v] din same by (simp add: vertex_ok_def)
      have ci: "closed_at g v (vx ?m1 v) d i"
        unfolding closed_at_def
      proof (intro impI)
        assume q: "i < length (backPointers d) \<and> backPointers d ! i + 1 < num_derivations g ?u"
        then have "min (Suc (backPointers d ! i + 1)) (num_derivations g ?u)
                   = Suc (backPointers d ! i + 1)" by (simp add: min_def)
        with r have "backPointers d ! i + 1 < length (kBestList (vx b ?u))" by simp
        from Derivation_succ_exists[OF dokb True this] obtain d' where
          s: "Derivation_succ g b d i = Some d'"
          and k: "dkey d' = (head (edge d), tail (edge d), (backPointers d)[i := backPointers d ! i + 1])"
          by blast
        from push_candidate_seen(2)[OF okb s, of v] k
        show "(head (edge d), tail (edge d), (backPointers d)[i := backPointers d ! i + 1])
              \<in> seenkeys (vx ?m1 v)"
          by simp
      qed
      have p1: "partial_ok g v (vx ?m1 v) (i + 1)"
        unfolding partial_ok_def k1
      proof (intro conjI ballI allI impI)
        fix h assume "h \<in> set (incoming g v)"
        then have "seeded g v (vx m v) h" using po by (simp add: partial_ok_def)
        then show "seeded g v (vx ?m1 v) h" by (rule seeded_mono[OF _ sk1])
      next
        fix d' j assume "d' \<in> set (butlast (kBestList (vx m v)))"
        then have "closed_at g v (vx m v) d' j" using po by (simp add: partial_ok_def)
        then show "closed_at g v (vx ?m1 v) d' j" by (rule closed_at_mono[OF _ sk1])
      next
        fix j assume j: "j < i + 1"
        show "closed_at g v (vx ?m1 v) (last (kBestList (vx m v))) j"
        proof (cases "j = i")
          case True
          then show ?thesis using ci dl by simp
        next
          case False
          then have "j < i" using j by simp
          then have "closed_at g v (vx m v) (last (kBestList (vx m v))) j"
            using po by (simp add: partial_ok_def)
          then show ?thesis by (rule closed_at_mono[OF _ sk1])
        qed
      qed
      have d1: "done_upto g ?m1 v" by (rule done_upto_same[OF dbv oth])
      from "7.hyps"(2)[OF True gd lk, unfolded complete_LazyNext_def] ok1 wf v1 k1 ne dl d1 p1
      obtain m' where rest: "LazyNext_from hf g v d k (i + 1) ?m1 = Inr m'"
        and dm: "done_upto g m' (Suc v)" by auto
      have "LazyNext_from hf g v d k i m = Inr m'"
        using True gd lk rest by (subst LazyNext_from.simps) simp
      then show ?thesis using dm by blast
    qed
  qed
qed

lemma frontier_less_finite:
  "is_finite (fst a) \<Longrightarrow> is_finite (fst b) \<Longrightarrow> frontier_less a b = (rval (fst a) < rval (fst b))"
  by (simp add: frontier_less_def float_less_finite)

lemma LazyKthBest_complete:
  assumes ok: "state_ok hf g m" and wf: "wf_hypergraph g" and dn: "\<forall>w. complete_ok g w (vx m w)"
  shows "\<exists>m'. LazyKthBest hf g v k m = Inr m' \<and> state_ok hf g m' \<and> grows m m' \<and>
           (\<forall>w. complete_ok g w (vx m' w)) \<and>
           min (Suc k) (num_derivations g v) \<le> length (kBestList (vx m' v))"
proof -
  have d: "done_upto g m (Suc v)" using dn by (simp add: done_upto_def)
  from complete_all(1)[of hf g v k m, unfolded complete_LazyKthBest_def] ok wf d
  obtain m' where lk: "LazyKthBest hf g v k m = Inr m'" and d': "done_upto g m' (Suc v)"
    and r: "min (Suc k) (num_derivations g v) \<le> length (kBestList (vx m' v))" by auto
  from LazyKthBest_safe[OF ok lk]
  have ok': "state_ok hf g m'" and gr: "grows m m'" and un: "untouched_from (Suc v) m m'" by auto
  have "complete_ok g w (vx m' w)" for w
  proof (cases "w < Suc v")
    case True
    then show ?thesis using d' by (simp add: done_upto_def)
  next
    case False
    then have "vx m' w = vx m w" using un by (simp add: untouched_from_def)
    then show ?thesis using dn by simp
  qed
  then show ?thesis using lk ok' gr r by blast
qed

lemma frontier_ok_grows:
  assumes f: "frontier_ok g m roots p e fr" and gr: "grows m m'"
  shows "frontier_ok g m' roots p e fr"
proof -
  have "snd (snd x) < length (kBestList (vx m' (roots ! fst (snd x)))) \<and>
        fst x = score (kBestList (vx m' (roots ! fst (snd x))) ! snd (snd x))"
    if x: "x \<in> set fr" for x
  proof -
    let ?w = "roots ! fst (snd x)"
    have pre: "prefix (kBestList (vx m ?w)) (kBestList (vx m' ?w))" using gr by (simp add: grows_def)
    have a: "snd (snd x) < length (kBestList (vx m ?w))"
      and b: "fst x = score (kBestList (vx m ?w) ! snd (snd x))"
      using f x by (auto simp: frontier_ok_def)
    show ?thesis using a b prefix_length_le[OF pre] prefix_nth[OF pre a] by simp
  qed
  then show ?thesis using f unfolding frontier_ok_def by blast
qed

lemma frontier_finite:
  assumes f: "frontier_ok g m roots p e fr" and ok: "state_ok hf g m" and fin: "finite_scores g"
  shows "\<forall>x \<in> set fr. is_finite (fst x)"
proof
  fix x assume x: "x \<in> set fr"
  let ?L = "kBestList (vx m (roots ! fst (snd x)))"
  have a: "snd (snd x) < length ?L" and b: "fst x = score (?L ! snd (snd x))"
    using f x by (auto simp: frontier_ok_def)
  have "?L ! snd (snd x) \<in> set ?L" using a by simp
  then show "is_finite (fst x)" using state_ok_fin(1)[OF ok fin] b by simp
qed

lemma frontier_push_heap:
  assumes f: "frontier_ok g m roots p e fr" and ok: "state_ok hf g m" and fin: "finite_scores g"
    and x: "is_finite (fst x)"
  shows "is_heap (\<lambda>x. rval (fst x)) (pq_push frontier_less fr x)"
proof (rule pq_push_heap)
  show "is_heap (\<lambda>x. rval (fst x)) fr" using f fin by (simp add: frontier_ok_def)
  show "\<forall>a \<in> insert x (set fr). \<forall>b \<in> insert x (set fr).
          frontier_less a b = (rval (fst a) < rval (fst b))"
    using frontier_finite[OF f ok fin] x by (auto simp: frontier_less_finite)
qed

lemma frontier_pop_heap:
  assumes f: "frontier_ok g m roots p e fr" and ok: "state_ok hf g m" and fin: "finite_scores g"
    and ne: "fr \<noteq> []"
  shows "is_heap (\<lambda>x. rval (fst x)) (pq_pop frontier_less fr)"
proof (rule pq_pop_heap[OF _ ne])
  show "is_heap (\<lambda>x. rval (fst x)) fr" using f fin by (simp add: frontier_ok_def)
  show "\<forall>a \<in> set fr. \<forall>b \<in> set fr. frontier_less a b = (rval (fst a) < rval (fst b))"
    using frontier_finite[OF f ok fin] by (auto simp: frontier_less_finite)
qed

lemma seed_frontier_complete:
  assumes ok: "state_ok hf g m" and wf: "wf_hypergraph g" and dn: "\<forall>w. complete_ok g w (vx m w)"
    and f: "frontier_ok g m roots i (\<lambda>_. 0) fr"
    and rs: "rs = drop i roots" and il: "i \<le> length roots"
  shows "\<exists>m' fr'. seed_frontier hf g rs i m fr = Inr (m', fr') \<and> state_ok hf g m' \<and>
           (\<forall>w. complete_ok g w (vx m' w)) \<and>
           frontier_ok g m' roots (length roots) (\<lambda>_. 0) fr'"
  using ok dn f rs il
proof (induction rs arbitrary: i m fr)
  case Nil
  then have "i = length roots" by simp
  with Nil show ?case by simp
next
  case (Cons r rs)
  have i: "i < length roots"
  proof (rule ccontr)
    assume "\<not> i < length roots"
    then have "drop i roots = []" by simp
    with Cons.prems(4) show False by simp
  qed
  have "r # rs = roots ! i # drop (Suc i) roots"
    using Cons.prems(4) Cons_nth_drop_Suc[OF i] by simp
  then have r: "r = roots ! i" and rs: "rs = drop (Suc i) roots" by simp_all
  from LazyKthBest_complete[OF Cons.prems(1) wf Cons.prems(2), of r 0]
  obtain m1 where lk: "LazyKthBest hf g r 0 m = Inr m1" and ok1: "state_ok hf g m1"
    and gr: "grows m m1" and dn1: "\<forall>w. complete_ok g w (vx m1 w)"
    and mn: "min (Suc 0) (num_derivations g r) \<le> length (kBestList (vx m1 r))" by blast
  let ?L = "kBestList (vx m1 r)"
  let ?fr1 = "if 0 < length ?L then pq_push frontier_less fr (score (?L ! 0), i, 0) else fr"
  have f0: "frontier_ok g m1 roots i (\<lambda>_. 0) fr" using frontier_ok_grows[OF Cons.prems(3) gr] .
  have f1: "frontier_ok g m1 roots (Suc i) (\<lambda>_. 0) ?fr1"
  proof (cases "0 < length ?L")
    case False
    then have "num_derivations g (roots ! i) = 0" using mn r by (simp add: min_def split: if_splits)
    then show ?thesis using f0 False unfolding frontier_ok_def
      by (auto simp: less_Suc_eq)
  next
    case True
    let ?x = "(score (?L ! 0), i, 0::nat)"
    have ms: "mset (pq_push frontier_less fr ?x) = add_mset ?x (mset fr)"
      by (rule pq_push_mset)
    have hp': "is_heap (\<lambda>x. rval (fst x)) (pq_push frontier_less fr ?x)" if fin: "finite_scores g"
    proof (rule frontier_push_heap[OF f0 ok1 fin])
      have "?L ! 0 \<in> set ?L" using True by simp
      then show "is_finite (fst ?x)" using state_ok_fin(1)[OF ok1 fin] by simp
    qed
    have st: "set (pq_push frontier_less fr ?x) = insert ?x (set fr)"
      using arg_cong[OF ms, of set_mset] by simp
    have msi: "mset (map (\<lambda>x. fst (snd x)) (pq_push frontier_less fr ?x))
               = add_mset i (mset (map (\<lambda>x. fst (snd x)) fr))"
      using arg_cong[OF ms, of "image_mset (\<lambda>x. fst (snd x))"] by simp
    have ni: "i \<notin> set (map (\<lambda>x. fst (snd x)) fr)" using f0 by (auto simp: frontier_ok_def)
    have dist: "distinct (map (\<lambda>x. fst (snd x)) (pq_push frontier_less fr ?x))"
      using mset_distinct_add[OF msi _ ni] f0 by (simp add: frontier_ok_def)
    have sti: "set (map (\<lambda>x. fst (snd x)) (pq_push frontier_less fr ?x))
               = insert i (set (map (\<lambda>x. fst (snd x)) fr))"
      using arg_cong[OF msi, of set_mset] by simp
    have "frontier_ok g m1 roots (Suc i) (\<lambda>_. 0) (pq_push frontier_less fr ?x)"
      unfolding frontier_ok_def
    proof (intro conjI)
      show "finite_scores g \<longrightarrow> is_heap (\<lambda>x. rval (fst x)) (pq_push frontier_less fr ?x)"
        using hp' by simp
      show "distinct (map (\<lambda>x. fst (snd x)) (pq_push frontier_less fr ?x))" by (rule dist)
      show "\<forall>x \<in> set (pq_push frontier_less fr ?x). fst (snd x) < Suc i \<and> snd (snd x) = 0 \<and>
         snd (snd x) < length (kBestList (vx m1 (roots ! fst (snd x)))) \<and>
         fst x = score (kBestList (vx m1 (roots ! fst (snd x))) ! snd (snd x))"
        using f0 True r unfolding st frontier_ok_def by (auto simp: less_Suc_eq)
      show "\<forall>j < Suc i. 0 \<le> num_derivations g (roots ! j) \<and>
         (j \<in> set (map (\<lambda>x. fst (snd x)) (pq_push frontier_less fr ?x)) \<or>
          0 = num_derivations g (roots ! j))"
        using f0 unfolding sti frontier_ok_def by (auto simp: less_Suc_eq)
    qed
    then show ?thesis using True by (simp only: if_True)
  qed
  from Cons.IH[OF ok1 dn1 f1 rs] i
  obtain m' fr' where "seed_frontier hf g rs (Suc i) m1 ?fr1 = Inr (m', fr')"
    "state_ok hf g m'" "\<forall>w. complete_ok g w (vx m' w)"
    "frontier_ok g m' roots (length roots) (\<lambda>_. 0) fr'" by auto
  then show ?case using lk by auto
qed

lemma sum_upd_Suc:
  fixes i p :: nat
  assumes "i < p"
  shows "(\<Sum>j<p. (e(i := Suc (e i))) j) = Suc (\<Sum>j<p. e j)"
proof -
  have i: "i \<in> {..<p}" using assms by simp
  let ?e = "e(i := Suc (e i))"
  have a: "sum ?e {..<p} = ?e i + sum ?e ({..<p} - {i})"
    by (rule sum.remove[OF finite_lessThan i])
  have b: "sum e {..<p} = e i + sum e ({..<p} - {i})"
    by (rule sum.remove[OF finite_lessThan i])
  have c: "sum ?e ({..<p} - {i}) = sum e ({..<p} - {i})"
    by (rule sum.cong) auto
  show ?thesis using a b c by simp
qed

lemma total_derivations_sum:
  "total_derivations g roots = (\<Sum>j<length roots. num_derivations g (roots ! j))"
proof -
  have "sum_list (map (num_derivations g) roots)
        = (\<Sum>j = 0..<length roots. map (num_derivations g) roots ! j)"
    using sum_list_sum_nth[of "map (num_derivations g) roots"] by simp
  also have "\<dots> = (\<Sum>j = 0..<length roots. num_derivations g (roots ! j))"
    by (rule sum.cong) auto
  finally show ?thesis by (simp add: total_derivations_def atLeast0LessThan)
qed

lemma frontier_emitted_le:
  assumes "frontier_ok g m roots (length roots) e fr"
  shows "(\<Sum>j<length roots. e j) \<le> total_derivations g roots"
  unfolding total_derivations_sum
  by (rule sum_mono) (use assms in \<open>simp add: frontier_ok_def\<close>)

lemma frontier_empty_all:
  assumes "frontier_ok g m roots (length roots) e []"
  shows "(\<Sum>j<length roots. e j) = total_derivations g roots"
  unfolding total_derivations_sum
  by (rule sum.cong) (use assms in \<open>simp_all add: frontier_ok_def\<close>)

lemma sorted_real_scores_desc:
  "\<forall>d \<in> set ds. is_finite (score d) \<Longrightarrow> sorted_wrt (\<lambda>a b. rscore b \<le> rscore a) ds \<Longrightarrow>
   scores_desc ds"
  unfolding scores_desc_def
  by (rule sorted_wrt_mono_rel[of _ "\<lambda>a b. rscore b \<le> rscore a"])
     (auto simp: float_le_finite rscore_def)

lemma merge_step_frontier:
  assumes f: "frontier_ok g m1 roots (length roots) e fr" and ok1: "state_ok hf g m1"
    and ne: "fr \<noteq> []" and top: "pq_top fr = (s, i, rank)"
    and bd: "length (kBestList (vx m roots_i)) \<le> num_derivations g roots_i"
    and ri: "roots_i = roots ! i"
    and lm: "rank < length (kBestList (vx m roots_i))"
    and mn: "min (Suc (rank + 1)) (num_derivations g roots_i) \<le> length (kBestList (vx m1 roots_i))"
  shows "frontier_ok g m1 roots (length roots) (e(i := Suc (e i)))
           (if rank + 1 < length (kBestList (vx m1 roots_i))
            then pq_push frontier_less (pq_pop frontier_less fr)
                   (score (kBestList (vx m1 roots_i) ! (rank + 1)), i, rank + 1)
            else pq_pop frontier_less fr)"
proof -
  let ?ix = "\<lambda>x::float \<times> nat \<times> nat. fst (snd x)"
  let ?fr1 = "pq_pop frontier_less fr"
  let ?e = "e(i := Suc (e i))"
  let ?L = "kBestList (vx m1 roots_i)"
  have ms: "add_mset (s, i, rank) (mset ?fr1) = mset fr"
    using pq_pop_mset[OF ne, of frontier_less] by (simp add: top)
  have hp1: "is_heap (\<lambda>x. rval (fst x)) ?fr1" if fin: "finite_scores g"
    using frontier_pop_heap[OF f ok1 fin ne] .
  have tin: "(s, i, rank) \<in> set fr" using pq_top_in[OF ne] top by simp
  then have il: "i < length roots" and re: "rank = e i"
    using f by (auto simp: frontier_ok_def)
  have st: "set fr = insert (s, i, rank) (set ?fr1)"
    using arg_cong[OF ms, of set_mset] by simp
  have msi: "mset (map ?ix fr) = add_mset i (mset (map ?ix ?fr1))"
    using arg_cong[OF ms, of "image_mset ?ix"] by simp
  have dfr: "distinct (map ?ix fr)" using f by (simp add: frontier_ok_def)
  have d1: "distinct (map ?ix ?fr1)" and ni: "i \<notin> set (map ?ix ?fr1)"
  proof -
    have "mset (map ?ix fr) = mset (i # map ?ix ?fr1)" using msi by simp
    from mset_eq_imp_distinct_iff[OF this] dfr have "distinct (i # map ?ix ?fr1)" by simp
    then show "distinct (map ?ix ?fr1)" and "i \<notin> set (map ?ix ?fr1)" by simp_all
  qed
  have sti: "set (map ?ix fr) = insert i (set (map ?ix ?fr1))"
    using arg_cong[OF msi, of set_mset] by simp
  have ent1: "fst (snd x) < length roots \<and> snd (snd x) = ?e (fst (snd x)) \<and>
         snd (snd x) < length (kBestList (vx m1 (roots ! fst (snd x)))) \<and>
         fst x = score (kBestList (vx m1 (roots ! fst (snd x))) ! snd (snd x))"
    if x: "x \<in> set ?fr1" for x
  proof -
    have "x \<in> set fr" using x st by simp
    moreover have "fst (snd x) \<noteq> i" using x ni by auto
    ultimately show ?thesis using f by (auto simp: frontier_ok_def)
  qed
  have le: "Suc rank \<le> num_derivations g roots_i" using lm bd by simp
  have cnt: "?e j \<le> num_derivations g (roots ! j)" if j: "j < length roots" for j
    using f j le re ri by (auto simp: frontier_ok_def)
  show ?thesis
  proof (cases "rank + 1 < length ?L")
    case False
    have ex: "Suc (e i) = num_derivations g (roots ! i)"
      using False mn le re ri by (simp add: min_def split: if_splits)
    have cov: "j \<in> set (map ?ix ?fr1) \<or> ?e j = num_derivations g (roots ! j)"
      if j: "j < length roots" for j
    proof (cases "j = i")
      case True
      then show ?thesis using ex by simp
    next
      case jn: False
      have "j \<in> set (map ?ix fr) \<or> e j = num_derivations g (roots ! j)"
        using f j by (simp add: frontier_ok_def)
      then show ?thesis using jn sti by auto
    qed
    show ?thesis using False hp1 d1 ent1 cnt cov unfolding frontier_ok_def
      by (simp only: if_False) blast
  next
    case True
    let ?x = "(score (?L ! (rank + 1)), i, rank + 1)"
    let ?fr2 = "pq_push frontier_less ?fr1 ?x"
    have ms2: "mset ?fr2 = add_mset ?x (mset ?fr1)" by (rule pq_push_mset)
    have hp2: "is_heap (\<lambda>x. rval (fst x)) ?fr2" if fin: "finite_scores g"
    proof (rule pq_push_heap[OF hp1[OF fin]])
      have "?L ! (rank + 1) \<in> set ?L" using True by simp
      then have fx: "is_finite (fst ?x)" using state_ok_fin(1)[OF ok1 fin] by simp
      have "\<forall>y \<in> set ?fr1. is_finite (fst y)"
        using frontier_finite[OF f ok1 fin] st by simp
      then show "\<forall>a \<in> insert ?x (set ?fr1). \<forall>b \<in> insert ?x (set ?fr1).
          frontier_less a b = (rval (fst a) < rval (fst b))"
        using fx by (auto simp: frontier_less_finite)
    qed
    have st2: "set ?fr2 = insert ?x (set ?fr1)"
      using arg_cong[OF ms2, of set_mset] by simp
    have msi2: "mset (map ?ix ?fr2) = add_mset i (mset (map ?ix ?fr1))"
      using arg_cong[OF ms2, of "image_mset ?ix"] by simp
    have d2: "distinct (map ?ix ?fr2)" using mset_distinct_add[OF msi2 d1 ni] .
    have sti2: "set (map ?ix ?fr2) = insert i (set (map ?ix ?fr1))"
      using arg_cong[OF msi2, of set_mset] by simp
    have ent2: "fst (snd x) < length roots \<and> snd (snd x) = ?e (fst (snd x)) \<and>
         snd (snd x) < length (kBestList (vx m1 (roots ! fst (snd x)))) \<and>
         fst x = score (kBestList (vx m1 (roots ! fst (snd x))) ! snd (snd x))"
      if x: "x \<in> set ?fr2" for x
    proof (cases "x = ?x")
      case xe: True
      show ?thesis using True il re ri unfolding xe by simp
    next
      case False
      then have "x \<in> set ?fr1" using x st2 by simp
      then show ?thesis by (rule ent1)
    qed
    have cov: "j \<in> set (map ?ix ?fr2) \<or> ?e j = num_derivations g (roots ! j)"
      if j: "j < length roots" for j
    proof (cases "j = i")
      case True
      then show ?thesis using sti2 by simp
    next
      case jn: False
      have "j \<in> set (map ?ix fr) \<or> e j = num_derivations g (roots ! j)"
        using f j by (simp add: frontier_ok_def)
      then show ?thesis using jn sti sti2 by auto
    qed
    show ?thesis using True hp2 d2 ent2 cnt cov unfolding frontier_ok_def
      by (simp only: if_True) blast
  qed
qed

text \<open>
  The order of the output, when the local scores are finite: the scores emitted so far are
  finite and non-increasing and no entry of the frontier has a higher score than they.
\<close>

lemma merge_loop_complete:
  assumes wf: "wf_hypergraph g"
  shows "state_ok hf g m \<Longrightarrow> \<forall>w. complete_ok g w (vx m w) \<Longrightarrow>
    frontier_ok g m roots (length roots) e fr \<Longrightarrow>
    length out = (\<Sum>j<length roots. e j) \<Longrightarrow>
    finite_scores g \<longrightarrow> (\<forall>d \<in> set out. is_finite (score d)) \<and>
       sorted_wrt (\<lambda>a b. rscore b \<le> rscore a) out \<and>
       (\<forall>x \<in> set fr. \<forall>d \<in> set out. rval (fst x) \<le> rscore d) \<Longrightarrow>
    \<exists>m' out'. merge_loop hf g roots n m fr out = Inr (m', out') \<and>
       length out' = min (length out + n) (total_derivations g roots) \<and>
       (finite_scores g \<longrightarrow> scores_desc out')"
proof (induction n arbitrary: m fr out e)
  case 0
  then show ?case
    using frontier_emitted_le[OF "0.prems"(3)] sorted_real_scores_desc[of out] by simp
next
  case (Suc n)
  note ok = Suc.prems(1) and dn = Suc.prems(2) and f = Suc.prems(3) and len = Suc.prems(4)
    and ord = Suc.prems(5)
  show ?case
  proof (cases "fr = []")
    case True
    then have "length out = total_derivations g roots"
      using frontier_empty_all[of g m roots e] f len by simp
    then show ?thesis using True ord sorted_real_scores_desc[of out] by simp
  next
    case False
    obtain s i rank where top: "pq_top fr = (s, i, rank)" by (cases "pq_top fr") auto
    let ?r = "roots ! i"
    let ?d = "kBestList (vx m ?r) ! rank"
    have tin: "(s, i, rank) \<in> set fr" using pq_top_in[OF False] top by simp
    then have il: "i < length roots" and re: "rank = e i"
      and lm: "rank < length (kBestList (vx m ?r))" and sc: "s = score ?d"
      using f by (auto simp: frontier_ok_def)
    from LazyKthBest_complete[OF ok wf dn, of ?r "rank + 1"]
    obtain m1 where lk: "LazyKthBest hf g ?r (rank + 1) m = Inr m1" and ok1: "state_ok hf g m1"
      and gr: "grows m m1" and dn1: "\<forall>w. complete_ok g w (vx m1 w)"
      and mn: "min (Suc (rank + 1)) (num_derivations g ?r) \<le> length (kBestList (vx m1 ?r))"
      by blast
    let ?L = "kBestList (vx m1 ?r)"
    let ?fr1 = "pq_pop frontier_less fr"
    let ?fr2 = "if rank + 1 < length ?L
                then pq_push frontier_less ?fr1 (score (?L ! (rank + 1)), i, rank + 1)
                else ?fr1"
    let ?e = "e(i := Suc (e i))"
    have bd: "length (kBestList (vx m ?r)) \<le> num_derivations g ?r"
      using kBestList_bounded[OF ok, of ?r] by simp
    have f1: "frontier_ok g m1 roots (length roots) e fr" using frontier_ok_grows[OF f gr] .
    have f2: "frontier_ok g m1 roots (length roots) ?e ?fr2"
      using merge_step_frontier[OF f1 ok1 False top bd refl lm mn] .
    have pre: "prefix (kBestList (vx m ?r)) ?L" using gr by (simp add: grows_def)
    have dL: "?L ! rank = ?d" using prefix_nth[OF pre lm] by simp
    have ms: "add_mset (s, i, rank) (mset ?fr1) = mset fr"
      using pq_pop_mset[OF False, of frontier_less] by (simp add: top)
    have st: "set fr = insert (s, i, rank) (set ?fr1)"
      using arg_cong[OF ms, of set_mset] by simp
    have len1: "length (out @ [?d]) = (\<Sum>j<length roots. ?e j)"
      using sum_upd_Suc[OF il, of e] len by simp
    have ord1: "finite_scores g \<longrightarrow> (\<forall>d \<in> set (out @ [?d]). is_finite (score d)) \<and>
       sorted_wrt (\<lambda>a b. rscore b \<le> rscore a) (out @ [?d]) \<and>
       (\<forall>x \<in> set ?fr2. \<forall>d \<in> set (out @ [?d]). rval (fst x) \<le> rscore d)"
    proof (intro impI)
      assume fin: "finite_scores g"
      from ord fin have fo: "\<forall>d \<in> set out. is_finite (score d)"
        and so: "sorted_wrt (\<lambda>a b. rscore b \<le> rscore a) out"
        and bnd: "\<forall>x \<in> set fr. \<forall>d \<in> set out. rval (fst x) \<le> rscore d" by auto
      have hp: "is_heap (\<lambda>x. rval (fst x)) fr" using f fin by (simp add: frontier_ok_def)
      have din: "?d \<in> set (kBestList (vx m ?r))" using lm by simp
      have fd: "is_finite (score ?d)" using state_ok_fin(1)[OF ok fin] din by blast
      have rs: "rval s = rscore ?d" using sc by (simp add: rscore_def)
      have le_top: "rval (fst x) \<le> rscore ?d" if "x \<in> set fr" for x
        using pq_top_max[OF hp that] top rs by simp
      have a: "\<forall>d \<in> set (out @ [?d]). is_finite (score d)" using fo fd by simp
      have b: "sorted_wrt (\<lambda>a b. rscore b \<le> rscore a) (out @ [?d])"
        using so bnd tin rs by (auto simp: sorted_wrt_append)
      have b1: "rval (fst x) \<le> rscore d" if x: "x \<in> set ?fr1" and d: "d \<in> set (out @ [?d])" for x d
      proof -
        have xin: "x \<in> set fr" using x st by simp
        show ?thesis using d bnd xin le_top[OF xin] by auto
      qed
      have c: "\<forall>x \<in> set ?fr2. \<forall>d \<in> set (out @ [?d]). rval (fst x) \<le> rscore d"
      proof (cases "rank + 1 < length ?L")
        case nf: False
        then show ?thesis using b1 by simp
      next
        case True
        let ?x = "(score (?L ! (rank + 1)), i, rank + 1)"
        have ms2: "mset (pq_push frontier_less ?fr1 ?x) = add_mset ?x (mset ?fr1)"
          by (rule pq_push_mset)
        have st2: "set (pq_push frontier_less ?fr1 ?x) = insert ?x (set ?fr1)"
          using arg_cong[OF ms2, of set_mset] by simp
        have sL: "sorted_wrt (\<lambda>a b. rscore b \<le> rscore a) ?L"
          using state_ok_fin(2)[OF ok1 fin] by simp
        have nx: "rscore (?L ! (rank + 1)) \<le> rscore ?d"
          using sorted_real_nth[OF sL _ True, of rank] dL by simp
        have nb: "rval (fst ?x) \<le> rscore d" if d: "d \<in> set (out @ [?d])" for d
        proof (cases "d = ?d")
          case True
          then show ?thesis using nx by (simp add: rscore_def)
        next
          case False
          then have "d \<in> set out" using d by simp
          then have "rval s \<le> rscore d" using bnd tin by fastforce
          then show ?thesis using nx rs by (simp add: rscore_def)
        qed
        have "\<forall>x \<in> set (pq_push frontier_less ?fr1 ?x). \<forall>d \<in> set (out @ [?d]). rval (fst x) \<le> rscore d"
          unfolding st2 using b1 nb by blast
        then show ?thesis using True by (simp only: if_True)
      qed
      show "(\<forall>d \<in> set (out @ [?d]). is_finite (score d)) \<and>
       sorted_wrt (\<lambda>a b. rscore b \<le> rscore a) (out @ [?d]) \<and>
       (\<forall>x \<in> set ?fr2. \<forall>d \<in> set (out @ [?d]). rval (fst x) \<le> rscore d)"
        using a b c by blast
    qed
    from Suc.IH[OF ok1 dn1 f2 len1 ord1]
    obtain m' out' where ml: "merge_loop hf g roots n m1 ?fr2 (out @ [?d]) = Inr (m', out')"
      and r: "length out' = min (length (out @ [?d]) + n) (total_derivations g roots)"
        "finite_scores g \<longrightarrow> scores_desc out'" by blast
    have "merge_loop hf g roots (Suc n) m fr out = Inr (m', out')"
      using False top lk ml by (simp add: Let_def)
    then show ?thesis using r by simp
  qed
qed

lemma complete_ok_unvisited: "\<not> visited x \<Longrightarrow> complete_ok g w x"
  by (simp add: complete_ok_def)

lemma Extract_complete:
  assumes hc: "hash_consistent hf" and wf: "wf_hypergraph g"
  shows "\<exists>out. Extract hf g roots k = Inr out \<and>
           length out = min k (total_derivations g roots) \<and>
           (finite_scores g \<longrightarrow> scores_desc out)"
proof -
  let ?m0 = "create_roots Map.empty roots"
  have s0: "state_ok hf g ?m0" using state_ok_create_roots[OF state_ok_empty[OF hc]] .
  have d0: "\<forall>w. complete_ok g w (vx ?m0 w)"
    by (simp add: complete_ok_unvisited Vertex_ctor_def)
  have f0: "frontier_ok g ?m0 roots 0 (\<lambda>_. 0) []"
    by (simp add: frontier_ok_def is_heap_Nil)
  from seed_frontier_complete[OF s0 wf d0 f0, of roots]
  obtain m1 fr where sf: "seed_frontier hf g roots 0 ?m0 [] = Inr (m1, fr)"
    and s1: "state_ok hf g m1" and d1: "\<forall>w. complete_ok g w (vx m1 w)"
    and f1: "frontier_ok g m1 roots (length roots) (\<lambda>_. 0) fr" by auto
  from merge_loop_complete[OF wf s1 d1 f1, of "[]" k]
  obtain m' out' where "merge_loop hf g roots k m1 fr [] = Inr (m', out')"
    "length out' = min k (total_derivations g roots)" "finite_scores g \<longrightarrow> scores_desc out'"
    by auto
  then show ?thesis using sf by (auto simp: Extract_def Extract_run_def)
qed

section \<open>The size and order of the list that Extract returns\<close>

lemma wf_example_graph: "wf_hypergraph example_graph"
  by (auto simp: wf_hypergraph_def example_graph_def hypo_def incoming_def)

lemma example_extract_all: "\<not> isl (Extract boost_hasher example_graph [1, 0] 5)"
  by code_simp

text \<open>
  The scenarios of the specification. A root with one childless hyperedge scored 9 and
  \<open>k = 3\<close> gives one derivation; a root with two childless hyperedges scored 5 and 3 and
  \<open>k = 2\<close> gives both, best first; a root whose one hyperedge, with local score 10, has a child
  with the derivations 2, 1 and 0 gives 12, 11 and 10; \<open>k = 0\<close> gives the empty list; of two
  roots with one derivation each and the same score, \<open>k = 1\<close> gives the one of the first root.
\<close>

lemma Extract_spec_scenarios:
  "map_sum id (map score) (Extract boost_hasher tie_graph [1] 3) = Inr [Finite 9]
   \<and> map_sum id (map score) (Extract boost_hasher two_edges_graph [1] 2)
       = Inr [Finite 5, Finite 3]
   \<and> map_sum id (map score) (Extract boost_hasher child_graph [4] 3)
       = Inr [Finite 12, Finite 11, Finite 10]
   \<and> Extract boost_hasher child_graph [4] 0 = Inr []
   \<and> map_sum id (map dkey) (Extract boost_hasher tie_graph [1, 2] 1) = Inr [(1, [], [])]"
proof -
  have a: "map_sum id (map score) (Extract boost_hasher tie_graph [1] 3) = Inr [Finite 9]"
    by code_simp
  have b: "map_sum id (map score) (Extract boost_hasher two_edges_graph [1] 2)
       = Inr [Finite 5, Finite 3]"
    by code_simp
  have c: "map_sum id (map score) (Extract boost_hasher child_graph [4] 3)
       = Inr [Finite 12, Finite 11, Finite 10]"
    by code_simp
  have d: "Extract boost_hasher child_graph [4] 0 = Inr []"
    by code_simp
  have e: "map_sum id (map dkey) (Extract boost_hasher tie_graph [1, 2] 1) = Inr [(1, [], [])]"
    by code_simp
  show ?thesis by (intro conjI) (rule a b c d e)+
qed




end
